theory Spec2Isabelle
  imports Main "HOL-Library.Sublist"
begin

section \<open>JavaScript values and strings\<close>

text \<open>
  The orchestrator is TypeScript. A JavaScript string is modelled as a \<open>string\<close>
  (a list of characters); the markers and keywords of the program are ASCII. A value
  produced by \<open>JSON.parse\<close> is a \<open>json\<close>; \<open>undefined\<close> is \<open>None\<close> of an option.
  Only the zero-ness of a number is ever inspected by the program (through
  \<open>Boolean(...)\<close>), so a number carries an integer.
\<close>

datatype json =
    JNull
  | JBool bool
  | JNum int
  | JStr string
  | JArr "json list"
  | JObj "(string \<times> json) list"

text \<open>
  \<open>text.indexOf(pat, from)\<close>: the least position at or after \<open>from\<close> where \<open>pat\<close>
  occurs, or \<open>-1\<close> (here \<open>None\<close>). A \<open>from\<close> beyond the end is clamped to the length.
\<close>

fun index_scan :: "string \<Rightarrow> string \<Rightarrow> nat \<Rightarrow> nat option" where
  "index_scan pat [] k = (if pat = [] then Some k else None)"
| "index_scan pat (c # cs) k =
     (if prefix pat (c # cs) then Some k else index_scan pat cs (Suc k))"

definition indexOf :: "string \<Rightarrow> string \<Rightarrow> nat \<Rightarrow> nat option" where
  "indexOf text pat from = index_scan pat (drop from text) (min from (length text))"

text \<open>\<open>text.slice(a, b)\<close> for non-negative indices: empty when \<open>b \<le> a\<close>.\<close>

definition slice :: "string \<Rightarrow> nat \<Rightarrow> nat \<Rightarrow> string" where
  "slice text a b = take (b - a) (drop a text)"

text \<open>
  \<open>s.trim()\<close> removes white space and line terminators from both ends. Among the
  characters of \<open>string\<close> these are TAB, LF, VT, FF, CR, SPACE and NBSP.
\<close>

definition is_white_space :: "char \<Rightarrow> bool" where
  "is_white_space c =
     (c \<in> set [CHR 0x09, CHR 0x0A, CHR 0x0B, CHR 0x0C, CHR 0x0D, CHR 0x20, CHR 0xA0])"

definition trim :: "string \<Rightarrow> string" where
  "trim s = rev (dropWhile is_white_space (rev (dropWhile is_white_space s)))"

section \<open>Report extractor\<close>

text \<open>
  \<open>extractTaggedJson(text, tag)\<close>. \<open>JSON.parse\<close> is the language's own parser and is a
  parameter: it returns the parsed value, or \<open>Inl\<close> of the text \<open>String(e)\<close> of the
  \<open>SyntaxError\<close> it throws.
\<close>

definition start_marker :: "string \<Rightarrow> string" where
  "start_marker tag = ''<<<'' @ tag @ ''>>>''"

definition end_marker :: string where
  "end_marker = ''<<<END>>>''"

definition extractTaggedJson :: "(string \<Rightarrow> string + json) \<Rightarrow> string \<Rightarrow> string \<Rightarrow> json option" where
  "extractTaggedJson JSON_parse text tag =
     (let start = start_marker tag; endm = end_marker in
      case indexOf text start 0 of
        None \<Rightarrow> None
      | Some i \<Rightarrow>
          (case indexOf text endm (i + length start) of
             None \<Rightarrow> None
           | Some j \<Rightarrow>
               (let raw = trim (slice text (i + length start) j) in
                case JSON_parse raw of
                  Inr v \<Rightarrow> Some v
                | Inl e \<Rightarrow> Some (JObj [(''parseError'', JStr e), (''raw'', JStr raw)]))))"

text \<open>
  Vocabulary for stating what the extractor selects: \<open>pat\<close> occurs in \<open>text\<close> at
  position \<open>k\<close>, and \<open>k\<close> is the first such position at or after \<open>from\<close>.
\<close>

definition occurs_at :: "string \<Rightarrow> string \<Rightarrow> nat \<Rightarrow> bool" where
  "occurs_at pat text k = (k \<le> length text \<and> prefix pat (drop k text))"

definition first_occurrence :: "string \<Rightarrow> string \<Rightarrow> nat \<Rightarrow> nat \<Rightarrow> bool" where
  "first_occurrence pat text from k =
     (from \<le> k \<and> occurs_at pat text k \<and> (\<forall>k'\<in>{from..<k}. \<not> occurs_at pat text k'))"

text \<open>
  The value returned for a selected and trimmed region \<open>raw\<close>: the parsed value, or the
  object \<open>{ parseError: String(e), raw }\<close> of the \<open>catch\<close> branch.
\<close>

definition report_of :: "(string \<Rightarrow> string + json) \<Rightarrow> string \<Rightarrow> json" where
  "report_of JSON_parse raw =
     (case JSON_parse raw of
        Inr v \<Rightarrow> v
      | Inl e \<Rightarrow> JObj [(''parseError'', JStr e), (''raw'', JStr raw)])"

section \<open>Workspace tools\<close>

subsection \<open>Paths\<close>

text \<open>
  \<open>safePath\<close> calls \<open>resolve\<close> and \<open>relative\<close> of Node's \<open>node:path\<close> (POSIX flavour; the
  tools split paths at \<open>/\<close>). They are modelled on path segments. \<open>s.split(sep)\<close> and
  \<open>xs.join(sep)\<close> for a one-character separator:
\<close>

fun split_on :: "char \<Rightarrow> string \<Rightarrow> string list" where
  "split_on c [] = [[]]"
| "split_on c (x # xs) =
     (if x = c then [] # split_on c xs
      else (case split_on c xs of
              w # ws \<Rightarrow> (x # w) # ws
            | [] \<Rightarrow> [[x]]))"

fun join :: "string \<Rightarrow> string list \<Rightarrow> string" where
  "join sep [] = []"
| "join sep [x] = x"
| "join sep (x # y # ys) = x @ sep @ join sep (y # ys)"

text \<open>
  Normalisation of an absolute path: empty segments and \<open>.\<close> are dropped, \<open>..\<close> removes
  the segment before it and is ignored at the root.
\<close>

definition normalize_step :: "string list \<Rightarrow> string \<Rightarrow> string list" where
  "normalize_step acc seg =
     (if seg = [] \<or> seg = ''.'' then acc
      else if seg = ''..'' then butlast acc
      else acc @ [seg])"

definition normalize_segments :: "string list \<Rightarrow> string list" where
  "normalize_segments segs = foldl normalize_step [] segs"

definition path_segments :: "string \<Rightarrow> string list" where
  "path_segments p = normalize_segments (split_on CHR ''/'' p)"

definition is_absolute :: "string \<Rightarrow> bool" where
  "is_absolute p = (case p of [] \<Rightarrow> False | c # _ \<Rightarrow> c = CHR ''/'')"

text \<open>
  \<open>resolve(workspaceRoot, userPath)\<close>. The workspace root is itself the result of
  \<open>resolve\<close> (in \<open>index.ts\<close>), hence absolute: an absolute \<open>userPath\<close> replaces it, a
  relative one is appended to it.
\<close>

definition resolve :: "string \<Rightarrow> string \<Rightarrow> string" where
  "resolve root userPath =
     ''/'' @ join ''/'' (path_segments (if is_absolute userPath then userPath
                                        else root @ ''/'' @ userPath))"

fun common_prefix_length :: "'a list \<Rightarrow> 'a list \<Rightarrow> nat" where
  "common_prefix_length (x # xs) (y # ys) =
     (if x = y then Suc (common_prefix_length xs ys) else 0)"
| "common_prefix_length _ _ = 0"

text \<open>
  \<open>relative(from, to)\<close> for absolute paths: one \<open>..\<close> for each segment of \<open>from\<close> below
  the common ancestor, then the segments of \<open>to\<close> below it.
\<close>

definition relative :: "string \<Rightarrow> string \<Rightarrow> string" where
  "relative from to =
     (let fs = path_segments from; ts = path_segments to;
          c = common_prefix_length fs ts
      in join ''/'' (replicate (length fs - c) ''..'' @ drop c ts))"

definition startsWith :: "string \<Rightarrow> string \<Rightarrow> bool" where
  "startsWith s pat = prefix pat s"

definition includes_string :: "string \<Rightarrow> string \<Rightarrow> bool" where
  "includes_string s pat = (indexOf s pat 0 \<noteq> None)"

text \<open>\<open>safePath\<close>: the absolute path, or the error it throws (\<open>Inl\<close> of its message).\<close>

definition safePath :: "string \<Rightarrow> string \<Rightarrow> string + string" where
  "safePath workspaceRoot userPath =
     (let abs_path = resolve workspaceRoot userPath;
          rel = relative workspaceRoot abs_path
      in if startsWith rel ''..'' \<or> includes_string rel ''..''
         then Inl (''Path escapes workspaceRoot: '' @ userPath)
         else Inr abs_path)"

subsection \<open>Command allow-list\<close>

definition allowed :: "string list" where
  "allowed = [''pnpm'', ''npm'', ''yarn'', ''node'', ''npx'', ''git'', ''tsx'', ''tsc'',
              ''vitest'', ''jest'', ''eslint'', ''storybook'', ''build-storybook'']"

text \<open>\<open>cmd.trim().split(/\s+/)[0]\<close> is the trimmed command up to its first white space.\<close>

definition commandAllowed :: "string \<Rightarrow> bool \<Rightarrow> bool" where
  "commandAllowed cmd allowUnsafe =
     (if allowUnsafe then True
      else (let first = takeWhile (\<lambda>c. \<not> is_white_space c) (trim cmd)
            in first \<in> set allowed))"

subsection \<open>The tools\<close>

text \<open>
  A tool's \<open>execute\<close> acts on the file system and the shell, which lie outside the
  program. It is modelled by what it asks of them: the list of calls it issues
  (\<open>readFile\<close>, \<open>writeFile\<close>, \<open>mkdir\<close>, \<open>rm\<close>, \<open>stat\<close>, the glob library, \<open>execa\<close>), or
  \<open>Inl\<close> of the message of the error that the tool itself throws (by \<open>throw new Error\<close>,
  in its own body or in \<open>safePath\<close>), which it always does before issuing any call. A call
  can fail in the file system (\<open>readFile\<close> or \<open>stat\<close> of a missing file rejects with an
  error of Node's own), which ends the tool; the error of a failed call is not modelled.
  The list is what the tool issues when no call before the last one fails.
  \<open>fs_apply_edits\<close> writes what it has read: the contents of the files are an argument
  (\<open>files\<close>, by absolute path; \<open>None\<close> where \<open>readFile\<close> fails), and where the read fails
  the list ends with it. The payload returned to the role is not modelled. Every tool
  body runs inside \<open>opts.lock.runExclusive\<close>; the mode check of the writing tools comes
  before the lock is taken.
\<close>

datatype mode = builder_mode | verifier_mode | refactorer_mode

record ToolOpts =
  workspaceRoot :: string
  allowUnsafe :: bool

record edit =
  startLine :: nat
  endLine :: nat
  replacement :: string

datatype tool_input =
    ReadInput string "nat option"
  | WriteInput string string "bool option"
  | ApplyEditsInput string "edit list"
  | DeleteInput string
  | MkdirInput string
  | GlobInput string "string list option"
  | StatInput string
  | CmdInput string "nat option"

datatype fs_call =
    ReadFile string
  | WriteFile string string
  | Mkdir string
  | Rm string
  | Stat string
  | Glob string "string list"
  | Exec string nat

type_synonym tool = "tool_input \<Rightarrow> (string \<rightharpoonup> string) \<Rightarrow> string + fs_call list"

text \<open>The input schema of each tool admits one shape of input; the rest never reaches \<open>execute\<close>.\<close>

definition invalid_input :: "string + fs_call list" where
  "invalid_input = Inl ''invalid input''"

definition fs_read :: "ToolOpts \<Rightarrow> tool" where
  "fs_read opts inp files =
     (case inp of
        ReadInput path maxBytes \<Rightarrow>
          (case safePath (workspaceRoot opts) path of
             Inl e \<Rightarrow> Inl e
           | Inr abs_path \<Rightarrow> Inr [ReadFile abs_path])
      | _ \<Rightarrow> invalid_input)"

definition fs_write :: "ToolOpts \<Rightarrow> mode \<Rightarrow> tool" where
  "fs_write opts m inp files =
     (case inp of
        WriteInput path contents mkdirp \<Rightarrow>
          (if m = verifier_mode then Inl ''fs_write not available to verifier''
           else (case safePath (workspaceRoot opts) path of
                   Inl e \<Rightarrow> Inl e
                 | Inr abs_path \<Rightarrow>
                     (let dir = join ''/'' (butlast (split_on CHR ''/'' abs_path))
                      in Inr ((if mkdirp = Some True \<and> dir \<noteq> [] then [Mkdir dir] else [])
                              @ [WriteFile abs_path contents]))))
      | _ \<Rightarrow> invalid_input)"

text \<open>
  \<open>lines.splice(s, n, ...items)\<close> with \<open>s \<ge> 0\<close>: a start beyond the end appends, a
  count that is negative in the source (here a truncated difference) removes nothing.
  The input schema admits only line numbers from 1 on, so \<open>startLine - 1\<close> is never
  negative.
\<close>

definition splice :: "'a list \<Rightarrow> nat \<Rightarrow> nat \<Rightarrow> 'a list \<Rightarrow> 'a list" where
  "splice xs s n items = take s xs @ items @ drop (s + n) xs"

definition apply_edits :: "string \<Rightarrow> edit list \<Rightarrow> string" where
  "apply_edits src edits =
     (let lines = split_on CHR 0x0A src;
          sorted = sort_key (\<lambda>e. - int (startLine e)) edits
      in join [CHR 0x0A]
           (foldl (\<lambda>ls e. splice ls (startLine e - 1) (endLine e - (startLine e - 1))
                              (split_on CHR 0x0A (replacement e)))
                  lines sorted))"

definition fs_apply_edits :: "ToolOpts \<Rightarrow> mode \<Rightarrow> tool" where
  "fs_apply_edits opts m inp files =
     (case inp of
        ApplyEditsInput path edits \<Rightarrow>
          (if m = verifier_mode then Inl ''fs_apply_edits not available to verifier''
           else (case safePath (workspaceRoot opts) path of
                   Inl e \<Rightarrow> Inl e
                 | Inr abs_path \<Rightarrow>
                     (case files abs_path of
                        None \<Rightarrow> Inr [ReadFile abs_path]
                      | Some src \<Rightarrow> Inr [ReadFile abs_path, WriteFile abs_path (apply_edits src edits)])))
      | _ \<Rightarrow> invalid_input)"

definition fs_delete :: "ToolOpts \<Rightarrow> mode \<Rightarrow> tool" where
  "fs_delete opts m inp files =
     (case inp of
        DeleteInput path \<Rightarrow>
          (if m = verifier_mode then Inl ''fs_delete not available to verifier''
           else (case safePath (workspaceRoot opts) path of
                   Inl e \<Rightarrow> Inl e
                 | Inr abs_path \<Rightarrow> Inr [Rm abs_path]))
      | _ \<Rightarrow> invalid_input)"

definition fs_mkdir :: "ToolOpts \<Rightarrow> mode \<Rightarrow> tool" where
  "fs_mkdir opts m inp files =
     (case inp of
        MkdirInput path \<Rightarrow>
          (if m = verifier_mode then Inl ''fs_mkdir not available to verifier''
           else (case safePath (workspaceRoot opts) path of
                   Inl e \<Rightarrow> Inl e
                 | Inr abs_path \<Rightarrow> Inr [Mkdir abs_path]))
      | _ \<Rightarrow> invalid_input)"

definition fs_glob :: "ToolOpts \<Rightarrow> tool" where
  "fs_glob opts inp files =
     (case inp of
        GlobInput pattern ignore \<Rightarrow>
          Inr [Glob pattern (case ignore of
                               None \<Rightarrow> [''**/node_modules/**'', ''**/dist/**'', ''**/.git/**'']
                             | Some ig \<Rightarrow> ig)]
      | _ \<Rightarrow> invalid_input)"

definition fs_stat :: "ToolOpts \<Rightarrow> tool" where
  "fs_stat opts inp files =
     (case inp of
        StatInput path \<Rightarrow>
          (case safePath (workspaceRoot opts) path of
             Inl e \<Rightarrow> Inl e
           | Inr abs_path \<Rightarrow> Inr [Stat abs_path])
      | _ \<Rightarrow> invalid_input)"

definition cmd_run :: "ToolOpts \<Rightarrow> tool" where
  "cmd_run opts inp files =
     (case inp of
        CmdInput cmd timeoutMs \<Rightarrow>
          (if \<not> commandAllowed cmd (allowUnsafe opts)
           then Inl (''Command blocked by allowlist: '' @ cmd)
           else Inr [Exec cmd (case timeoutMs of None \<Rightarrow> 10 * 60 * 1000 | Some t \<Rightarrow> t)])
      | _ \<Rightarrow> invalid_input)"

text \<open>The object of tools, as the list of its properties in order.\<close>

definition createCommonTools :: "ToolOpts \<Rightarrow> mode \<Rightarrow> (string \<times> tool) list" where
  "createCommonTools opts m =
     [(''fs_read'', fs_read opts),
      (''fs_write'', fs_write opts m),
      (''fs_apply_edits'', fs_apply_edits opts m),
      (''fs_delete'', fs_delete opts m),
      (''fs_mkdir'', fs_mkdir opts m),
      (''fs_glob'', fs_glob opts),
      (''fs_stat'', fs_stat opts),
      (''cmd_run'', cmd_run opts)]"

definition createBuilderTools :: "ToolOpts \<Rightarrow> (string \<times> tool) list" where
  "createBuilderTools opts = createCommonTools opts builder_mode"

definition createRefactorerTools :: "ToolOpts \<Rightarrow> (string \<times> tool) list" where
  "createRefactorerTools opts = createCommonTools opts refactorer_mode"

text \<open>
  \<open>const { fs_write, fs_delete, fs_apply_edits, fs_mkdir, ...rest } = all\<close>: the rest
  keeps every other property, in order.
\<close>

definition createVerifierTools :: "ToolOpts \<Rightarrow> (string \<times> tool) list" where
  "createVerifierTools opts =
     filter (\<lambda>(name, t). name \<notin> set [''fs_write'', ''fs_delete'', ''fs_apply_edits'', ''fs_mkdir''])
            (createCommonTools opts verifier_mode)"

text \<open>A call that changes the workspace.\<close>

fun is_mutation :: "fs_call \<Rightarrow> bool" where
  "is_mutation (WriteFile _ _) = True"
| "is_mutation (Mkdir _) = True"
| "is_mutation (Rm _) = True"
| "is_mutation _ = False"

text \<open>The names that \<open>createVerifierTools\<close> takes out of the tool object.\<close>

definition mutating_tools :: "string list" where
  "mutating_tools = [''fs_write'', ''fs_delete'', ''fs_apply_edits'', ''fs_mkdir'']"

text \<open>A segment of a normalised path: not empty, not \<open>.\<close>, not \<open>..\<close>, without \<open>/\<close>.\<close>

definition normal_segment :: "string \<Rightarrow> bool" where
  "normal_segment seg = (seg \<noteq> [] \<and> seg \<noteq> ''.'' \<and> seg \<noteq> ''..'' \<and> CHR ''/'' \<notin> set seg)"

section \<open>Orchestrator\<close>

subsection \<open>Reading a report\<close>

text \<open>
  \<open>(report as any)?.key\<close>: \<open>undefined\<close> unless the report is an object with that
  property (for a key given twice, \<open>JSON.parse\<close> keeps the last value).
\<close>

fun get_prop :: "json option \<Rightarrow> string \<Rightarrow> json option" where
  "get_prop (Some (JObj kvs)) key = map_of (rev kvs) key"
| "get_prop _ key = None"

text \<open>\<open>x ?? d\<close>: the default replaces \<open>undefined\<close> and \<open>null\<close>.\<close>

definition nullish :: "json option \<Rightarrow> json \<Rightarrow> json" where
  "nullish x d = (case x of None \<Rightarrow> d | Some JNull \<Rightarrow> d | Some v \<Rightarrow> v)"

fun Boolean :: "json \<Rightarrow> bool" where
  "Boolean JNull = False"
| "Boolean (JBool b) = b"
| "Boolean (JNum n) = (n \<noteq> 0)"
| "Boolean (JStr s) = (s \<noteq> [])"
| "Boolean (JArr _) = True"
| "Boolean (JObj _) = True"

definition toLowerCase_char :: "char \<Rightarrow> char" where
  "toLowerCase_char c =
     (let n = (of_char c :: nat)
      in if (65 \<le> n \<and> n \<le> 90) \<or> (192 \<le> n \<and> n \<le> 222 \<and> n \<noteq> 215)
         then char_of (n + 32) else c)"

definition toLowerCase :: "string \<Rightarrow> string" where
  "toLowerCase s = map toLowerCase_char s"

definition REFACTOR_SIGNALS :: "string list" where
  "REFACTOR_SIGNALS =
     [''refactor'', ''solid'', ''architecture'', ''layering'', ''hexagonal'', ''duplication'',
      ''dead code'', ''cyclomatic'', ''complexity'', ''performance'', ''hot path'',
      ''testability'']"

text \<open>The built-ins \<open>JSON.parse\<close> and \<open>JSON.stringify\<close> of the language are parameters.\<close>

record JS =
  JSON_parse :: "string \<Rightarrow> string + json"
  JSON_stringify :: "json \<Rightarrow> string"

definition looksLikeRefactor :: "JS \<Rightarrow> json option \<Rightarrow> bool" where
  "looksLikeRefactor js blockers =
     (let txt = toLowerCase (JSON_stringify js (nullish blockers (JArr [])))
      in list_ex (\<lambda>s. includes_string txt s) REFACTOR_SIGNALS)"

subsection \<open>Shared state\<close>

text \<open>
  \<open>lastReport\<close> is \<open>report ?? response\<close>: a parsed value or the response text. \<open>verdict\<close>
  holds whatever value the report carries under that key (the cast in the source checks
  nothing), \<open>"UNKNOWN"\<close> when there is none. Time stamps are readings of the clock.
\<close>

record BuilderState =
  builder_lastReport :: "json option"
  exitCriteriaMet :: bool
  wantsRefactor :: bool

record VerifierState =
  verifier_lastReport :: "json option"
  verdict :: json
  blockers :: "json option"
  refactorRecommended :: bool

record RefactorerState =
  refactorer_lastReport :: "json option"
  ranCount :: nat
  lastRanAt :: "nat option"

record SharedState =
  startedAt :: nat
  iteration :: int
  builder :: BuilderState
  verifier :: VerifierState
  refactorer :: RefactorerState

record OrchestratorOpts =
  maxIterations :: int
  verifierIntervalSec :: nat

subsection \<open>The three loops\<close>

text \<open>
  The three loops are \<open>async\<close> functions running on one thread: each runs without
  interruption from one \<open>await\<close> to the next. The state of a loop is the \<open>await\<close> it is
  suspended at, or how it ended: \<open>done\<close> when its \<open>while\<close> was left (its promise is
  fulfilled), \<open>failed\<close> when an awaited promise rejected, which nothing in the loop catches
  (its promise is rejected). A pending \<open>sleep\<close> carries the clock value at which its timer
  is due; \<open>woken\<close> is a \<open>sleep\<close> whose promise the abort listener has resolved.
\<close>

datatype builder_pc = B_persist_iteration | B_prompt | B_persist_report | B_done | B_failed

datatype verifier_pc = V_prompt | V_persist | V_sleep nat | V_woken | V_done | V_failed

datatype refactorer_pc = R_sleep nat | R_woken | R_prompt | R_persist | R_done | R_failed

record orchestrator =
  state :: SharedState
  aborted :: bool
  refactorTriggerRequested :: bool
  now :: nat
  builderLoop :: builder_pc
  verifierLoop :: verifier_pc
  refactorerLoop :: refactorer_pc

text \<open>
  \<open>abort.abort()\<close>: on the first call the signal becomes aborted and the \<open>abort\<close> event is
  dispatched once, to the listeners registered so far: every pending \<open>sleep\<close> is resolved.
  A later call does nothing. A listener added after the event (by a \<open>sleep\<close> that starts
  when the signal is already aborted) is never called.
\<close>

fun wake_verifier :: "verifier_pc \<Rightarrow> verifier_pc" where
  "wake_verifier (V_sleep d) = V_woken"
| "wake_verifier pc = pc"

fun wake_refactorer :: "refactorer_pc \<Rightarrow> refactorer_pc" where
  "wake_refactorer (R_sleep d) = R_woken"
| "wake_refactorer pc = pc"

definition abort :: "orchestrator \<Rightarrow> orchestrator" where
  "abort s =
     (if aborted s then s
      else s\<lparr>aborted := True,
             verifierLoop := wake_verifier (verifierLoop s),
             refactorerLoop := wake_refactorer (refactorerLoop s)\<rparr>)"

text \<open>
  \<open>sleep(ms, signal)\<close> arms a timer and registers an abort listener; the loop then waits
  for the promise. The model keeps the clock value at which the timer is due.
\<close>

definition sleep :: "nat \<Rightarrow> orchestrator \<Rightarrow> nat" where
  "sleep ms s = now s + ms"

text \<open>
  Builder loop. \<open>builder_loop_top\<close> is the \<open>while\<close> condition and the pass up to the first
  \<open>await persistState\<close>; \<open>builder_report\<close> runs when \<open>prompt\<close> returns, up to the second
  \<open>await persistState\<close>; \<open>builder_check\<close> runs after it, through the end of the pass and
  into the next one.
\<close>

definition builder_loop_top :: "OrchestratorOpts \<Rightarrow> orchestrator \<Rightarrow> orchestrator" where
  "builder_loop_top opts s =
     (if \<not> aborted s \<and> iteration (state s) < maxIterations opts
      then s\<lparr>state := (state s)\<lparr>iteration := iteration (state s) + 1\<rparr>,
             builderLoop := B_persist_iteration\<rparr>
      else s\<lparr>builderLoop := B_done\<rparr>)"

definition builder_report :: "JS \<Rightarrow> string \<Rightarrow> orchestrator \<Rightarrow> orchestrator" where
  "builder_report js response s =
     (let report = extractTaggedJson (JSON_parse js) response ''BUILDER_REPORT_JSON'';
          b = \<lparr>builder_lastReport = Some (nullish report (JStr response)),
               exitCriteriaMet = Boolean (nullish (get_prop report ''exitCriteriaMet'') (JBool False)),
               wantsRefactor = Boolean (nullish (get_prop report ''wantsRefactor'') (JBool False))\<rparr>
      in s\<lparr>state := (state s)\<lparr>builder := b\<rparr>,
            refactorTriggerRequested := (if wantsRefactor b then True else refactorTriggerRequested s),
            builderLoop := B_persist_report\<rparr>)"

definition builder_check :: "OrchestratorOpts \<Rightarrow> orchestrator \<Rightarrow> orchestrator" where
  "builder_check opts s =
     (if exitCriteriaMet (builder (state s)) \<and> verdict (verifier (state s)) = JStr ''PASS''
      then (abort s)\<lparr>builderLoop := B_done\<rparr>
      else builder_loop_top opts
             (if verdict (verifier (state s)) = JStr ''FAIL''
                 \<and> refactorRecommended (verifier (state s))
              then s\<lparr>refactorTriggerRequested := True\<rparr> else s))"

text \<open>Verifier loop, cut the same way; the pass ends in \<open>await sleep(...)\<close>.\<close>

definition verifier_loop_top :: "orchestrator \<Rightarrow> orchestrator" where
  "verifier_loop_top s =
     (if \<not> aborted s then s\<lparr>verifierLoop := V_prompt\<rparr> else s\<lparr>verifierLoop := V_done\<rparr>)"

definition verifier_report :: "JS \<Rightarrow> string \<Rightarrow> orchestrator \<Rightarrow> orchestrator" where
  "verifier_report js response s =
     (let report = extractTaggedJson (JSON_parse js) response ''VERIFIER_REPORT_JSON'';
          bl = nullish (get_prop report ''blockers'') (JArr []);
          v = \<lparr>verifier_lastReport = Some (nullish report (JStr response)),
               verdict = nullish (get_prop report ''verdict'') (JStr ''UNKNOWN''),
               blockers = Some bl,
               refactorRecommended =
                 (Boolean (nullish (get_prop report ''refactorRecommended'') (JBool False))
                  \<or> looksLikeRefactor js (Some bl))\<rparr>
      in s\<lparr>state := (state s)\<lparr>verifier := v\<rparr>, verifierLoop := V_persist\<rparr>)"

definition verifier_check :: "OrchestratorOpts \<Rightarrow> orchestrator \<Rightarrow> orchestrator" where
  "verifier_check opts s =
     (if verdict (verifier (state s)) = JStr ''PASS'' \<and> exitCriteriaMet (builder (state s))
      then (abort s)\<lparr>verifierLoop := V_done\<rparr>
      else (if verdict (verifier (state s)) = JStr ''FAIL''
               \<and> refactorRecommended (verifier (state s))
            then s\<lparr>refactorTriggerRequested := True\<rparr> else s)
           \<lparr>verifierLoop := V_sleep (sleep (verifierIntervalSec opts * 1000) s)\<rparr>)"

text \<open>
  Refactorer loop. \<open>continue\<close> goes back to the \<open>while\<close> condition at once, with the
  trigger cleared.
\<close>

function refactorer_loop_top :: "orchestrator \<Rightarrow> orchestrator" where
  "refactorer_loop_top s =
     (if aborted s then s\<lparr>refactorerLoop := R_done\<rparr>
      else if \<not> refactorTriggerRequested s then s\<lparr>refactorerLoop := R_sleep (sleep 1000 s)\<rparr>
      else if verdict (verifier (state s)) = JStr ''PASS''
           then refactorer_loop_top (s\<lparr>refactorTriggerRequested := False\<rparr>)
           else s\<lparr>refactorTriggerRequested := False, refactorerLoop := R_prompt\<rparr>)"
  by pat_completeness auto
termination
  by (relation "measure (\<lambda>s. if refactorTriggerRequested s then 1 else 0)") auto

declare refactorer_loop_top.simps [simp del]

definition refactorer_report :: "JS \<Rightarrow> string \<Rightarrow> orchestrator \<Rightarrow> orchestrator" where
  "refactorer_report js response s =
     (let report = extractTaggedJson (JSON_parse js) response ''REFACTORER_REPORT_JSON'';
          r = \<lparr>refactorer_lastReport = Some (nullish report (JStr response)),
               ranCount = ranCount (refactorer (state s)) + 1,
               lastRanAt = Some (now s)\<rparr>
      in s\<lparr>state := (state s)\<lparr>refactorer := r\<rparr>, refactorerLoop := R_persist\<rparr>)"

subsection \<open>Events and runs\<close>

text \<open>
  What happens to the program from outside: a promise that a loop awaits is settled
  (\<open>prompt\<close> returns the response text or rejects; \<open>writeFile\<close> inside \<open>persistState\<close>
  succeeds or rejects; a woken \<open>sleep\<close> resumes), the timer of a pending \<open>sleep\<close> fires (not
  before it is due), or time passes. \<open>step\<close> is \<open>None\<close> when the event cannot happen in
  the state.
\<close>

datatype role = Builder | Verifier | Refactorer

datatype outcome = Fulfilled string | Rejected

datatype event = Settle role outcome | Timer role | Tick nat

fun step :: "JS \<Rightarrow> OrchestratorOpts \<Rightarrow> event \<Rightarrow> orchestrator \<Rightarrow> orchestrator option" where
  "step js opts (Tick n) s = Some (s\<lparr>now := now s + n\<rparr>)"
| "step js opts (Timer Builder) s = None"
| "step js opts (Timer Verifier) s =
     (case verifierLoop s of
        V_sleep d \<Rightarrow> if d \<le> now s then Some (verifier_loop_top s) else None
      | _ \<Rightarrow> None)"
| "step js opts (Timer Refactorer) s =
     (case refactorerLoop s of
        R_sleep d \<Rightarrow> if d \<le> now s then Some (refactorer_loop_top s) else None
      | _ \<Rightarrow> None)"
| "step js opts (Settle Builder (Fulfilled v)) s =
     (case builderLoop s of
        B_persist_iteration \<Rightarrow> Some (s\<lparr>builderLoop := B_prompt\<rparr>)
      | B_prompt \<Rightarrow> Some (builder_report js v s)
      | B_persist_report \<Rightarrow> Some (builder_check opts s)
      | _ \<Rightarrow> None)"
| "step js opts (Settle Builder Rejected) s =
     (case builderLoop s of
        B_persist_iteration \<Rightarrow> Some (s\<lparr>builderLoop := B_failed\<rparr>)
      | B_prompt \<Rightarrow> Some (s\<lparr>builderLoop := B_failed\<rparr>)
      | B_persist_report \<Rightarrow> Some (s\<lparr>builderLoop := B_failed\<rparr>)
      | _ \<Rightarrow> None)"
| "step js opts (Settle Verifier (Fulfilled v)) s =
     (case verifierLoop s of
        V_prompt \<Rightarrow> Some (verifier_report js v s)
      | V_persist \<Rightarrow> Some (verifier_check opts s)
      | V_woken \<Rightarrow> Some (verifier_loop_top s)
      | _ \<Rightarrow> None)"
| "step js opts (Settle Verifier Rejected) s =
     (case verifierLoop s of
        V_prompt \<Rightarrow> Some (s\<lparr>verifierLoop := V_failed\<rparr>)
      | V_persist \<Rightarrow> Some (s\<lparr>verifierLoop := V_failed\<rparr>)
      | _ \<Rightarrow> None)"
| "step js opts (Settle Refactorer (Fulfilled v)) s =
     (case refactorerLoop s of
        R_woken \<Rightarrow> Some (refactorer_loop_top s)
      | R_prompt \<Rightarrow> Some (refactorer_report js v s)
      | R_persist \<Rightarrow> Some (refactorer_loop_top s)
      | _ \<Rightarrow> None)"
| "step js opts (Settle Refactorer Rejected) s =
     (case refactorerLoop s of
        R_prompt \<Rightarrow> Some (s\<lparr>refactorerLoop := R_failed\<rparr>)
      | R_persist \<Rightarrow> Some (s\<lparr>refactorerLoop := R_failed\<rparr>)
      | _ \<Rightarrow> None)"

fun run :: "JS \<Rightarrow> OrchestratorOpts \<Rightarrow> event list \<Rightarrow> orchestrator \<Rightarrow> orchestrator option" where
  "run js opts [] s = Some s"
| "run js opts (ev # evs) s =
     (case step js opts ev s of None \<Rightarrow> None | Some s' \<Rightarrow> run js opts evs s')"

text \<open>
  \<open>runOrchestrator\<close> up to \<open>Promise.allSettled\<close>: the state is created, and the three loops
  are started one after the other, each running to its first \<open>await\<close>. (The loop fields
  of the record given to the first start are placeholders; each start sets its own.)
\<close>

definition initial_state :: "nat \<Rightarrow> SharedState" where
  "initial_state t0 =
     \<lparr>startedAt = t0, iteration = 0,
      builder = \<lparr>builder_lastReport = None, exitCriteriaMet = False, wantsRefactor = False\<rparr>,
      verifier = \<lparr>verifier_lastReport = None, verdict = JStr ''UNKNOWN'', blockers = None,
                  refactorRecommended = False\<rparr>,
      refactorer = \<lparr>refactorer_lastReport = None, ranCount = 0, lastRanAt = None\<rparr>\<rparr>"

definition start :: "OrchestratorOpts \<Rightarrow> nat \<Rightarrow> orchestrator" where
  "start opts t0 =
     refactorer_loop_top (verifier_loop_top (builder_loop_top opts
       \<lparr>state = initial_state t0, aborted = False, refactorTriggerRequested = False, now = t0,
        builderLoop = B_done, verifierLoop = V_done, refactorerLoop = R_done\<rparr>))"


subsection \<open>Vocabulary for the properties of the loops\<close>

text \<open>The overall completion condition, as both loops test it.\<close>

definition complete :: "orchestrator \<Rightarrow> bool" where
  "complete s =
     (exitCriteriaMet (builder (state s)) \<and> verdict (verifier (state s)) = JStr ''PASS'')"

text \<open>The event resumes the Builder or the Verifier loop at its completion test.\<close>

definition completion_check :: "event \<Rightarrow> orchestrator \<Rightarrow> bool" where
  "completion_check ev s =
     (case ev of
        Settle Builder (Fulfilled v) \<Rightarrow> builderLoop s = B_persist_report
      | Settle Verifier (Fulfilled v) \<Rightarrow> verifierLoop s = V_persist
      | _ \<Rightarrow> False)"

definition observes_completion :: "event \<Rightarrow> orchestrator \<Rightarrow> bool" where
  "observes_completion ev s = (completion_check ev s \<and> complete s)"

text \<open>
  The event resumes the loop of the role at a point from which it goes on to test its
  \<open>while\<close> condition: the end of a pass or the end of a wait.
\<close>

definition checkpoint :: "role \<Rightarrow> event \<Rightarrow> orchestrator \<Rightarrow> bool" where
  "checkpoint r ev s =
     (case r of
        Builder \<Rightarrow>
          (case ev of
             Settle Builder (Fulfilled v) \<Rightarrow> builderLoop s = B_persist_report
           | _ \<Rightarrow> False)
      | Verifier \<Rightarrow>
          (case ev of
             Timer Verifier \<Rightarrow> (case verifierLoop s of V_sleep d \<Rightarrow> d \<le> now s | _ \<Rightarrow> False)
           | Settle Verifier (Fulfilled v) \<Rightarrow> verifierLoop s = V_woken
           | _ \<Rightarrow> False)
      | Refactorer \<Rightarrow>
          (case ev of
             Timer Refactorer \<Rightarrow>
               (case refactorerLoop s of R_sleep d \<Rightarrow> d \<le> now s | _ \<Rightarrow> False)
           | Settle Refactorer (Fulfilled v) \<Rightarrow>
               refactorerLoop s = R_woken \<or> refactorerLoop s = R_persist
           | _ \<Rightarrow> False))"

fun loop_done :: "role \<Rightarrow> orchestrator \<Rightarrow> bool" where
  "loop_done Builder s = (builderLoop s = B_done)"
| "loop_done Verifier s = (verifierLoop s = V_done)"
| "loop_done Refactorer s = (refactorerLoop s = R_done)"

fun loop_failed :: "role \<Rightarrow> orchestrator \<Rightarrow> bool" where
  "loop_failed Builder s = (builderLoop s = B_failed)"
| "loop_failed Verifier s = (verifierLoop s = V_failed)"
| "loop_failed Refactorer s = (refactorerLoop s = R_failed)"

fun awaiting_prompt :: "role \<Rightarrow> orchestrator \<Rightarrow> bool" where
  "awaiting_prompt Builder s = (builderLoop s = B_prompt)"
| "awaiting_prompt Verifier s = (verifierLoop s = V_prompt)"
| "awaiting_prompt Refactorer s = (refactorerLoop s = R_prompt)"

text \<open>The loops other than that of the role are where they were.\<close>

fun other_loops_unchanged :: "role \<Rightarrow> orchestrator \<Rightarrow> orchestrator \<Rightarrow> bool" where
  "other_loops_unchanged Builder s s' =
     (verifierLoop s' = verifierLoop s \<and> refactorerLoop s' = refactorerLoop s)"
| "other_loops_unchanged Verifier s s' =
     (builderLoop s' = builderLoop s \<and> refactorerLoop s' = refactorerLoop s)"
| "other_loops_unchanged Refactorer s s' =
     (builderLoop s' = builderLoop s \<and> verifierLoop s' = verifierLoop s)"

text \<open>The sub-record of the shared state that belongs to the role is the same in both.\<close>

fun same_sub_record :: "role \<Rightarrow> orchestrator \<Rightarrow> orchestrator \<Rightarrow> bool" where
  "same_sub_record Builder s s' = (builder (state s') = builder (state s))"
| "same_sub_record Verifier s s' = (verifier (state s') = verifier (state s))"
| "same_sub_record Refactorer s s' = (refactorer (state s') = refactorer (state s))"

text \<open>The role whose loop an event resumes.\<close>

fun event_role :: "event \<Rightarrow> role option" where
  "event_role (Settle r out) = Some r"
| "event_role (Timer r) = Some r"
| "event_role (Tick n) = None"


section \<open>Lock\<close>

text \<open>
  \<open>SimpleMutex\<close> chains promises. A promise is its index in the list \<open>promises\<close>, which
  records whether it is resolved; \<open>new Promise\<close> appends an unresolved one. An operation
  \<open>fn\<close> is an \<open>async\<close> function: it performs its effects one at a time, suspending between
  them (its awaits), and then returns or throws. An effect is an entry appended to a
  shared log, so that the log shows in which order effects became visible.
\<close>

record 'a operation =
  op_effects :: "'a list"
  op_throws :: bool

text \<open>
  The names of the source are kept with a prefix where a record field would otherwise take
  a common name: \<open>lock_p\<close> is the field \<open>p\<close> of the mutex, \<open>call_prev\<close>, \<open>call_release\<close> and
  \<open>call_fn\<close> are \<open>prev\<close>, \<open>release\<close> and \<open>fn\<close> of one call of \<open>runExclusive\<close>.

  A call of \<open>runExclusive\<close> is suspended at \<open>await prev\<close>, or inside \<open>fn\<close> with the effects
  it has still to perform, or it has ended, \<open>fn\<close> having returned or thrown.
\<close>

datatype 'a progress = Awaiting_prev | In_fn "'a list" | Returned | Thrown

record 'a call =
  call_prev :: nat
  call_release :: nat
  call_fn :: "'a operation"
  call_progress :: "'a progress"

record 'a mutex =
  lock_p :: nat
  lock_promises :: "bool list"
  lock_calls :: "'a call list"
  lock_log :: "'a list"

text \<open>\<open>new SimpleMutex()\<close>: \<open>p = Promise.resolve()\<close>.\<close>

definition SimpleMutex :: "'a mutex" where
  "SimpleMutex = \<lparr>lock_p = 0, lock_promises = [True], lock_calls = [], lock_log = []\<rparr>"

definition resolved :: "'a mutex \<Rightarrow> nat \<Rightarrow> bool" where
  "resolved m i = (i < length (lock_promises m) \<and> lock_promises m ! i)"

text \<open>
  \<open>runExclusive(fn)\<close> up to \<open>await prev\<close>: it takes the current tail \<open>p\<close> as \<open>prev\<close>, makes a
  new promise with resolver \<open>release\<close>, and stores it as the new tail.
\<close>

definition runExclusive :: "'a operation \<Rightarrow> 'a mutex \<Rightarrow> 'a mutex" where
  "runExclusive f m =
     (let prev = lock_p m; release = length (lock_promises m)
      in m\<lparr>lock_p := release,
            lock_promises := lock_promises m @ [False],
            lock_calls := lock_calls m @ [\<lparr>call_prev = prev, call_release = release,
                                           call_fn = f, call_progress = Awaiting_prev\<rparr>]\<rparr>)"

text \<open>
  The call number \<open>k\<close> is resumed. At \<open>await prev\<close> it can only be resumed when \<open>prev\<close> is
  resolved, and then calls \<open>fn\<close>. Inside \<open>fn\<close> it performs the next effect; when none is
  left, \<open>fn\<close> returns or throws, and in both cases the \<open>finally\<close> block calls \<open>release()\<close>.
\<close>

definition resume :: "nat \<Rightarrow> 'a mutex \<Rightarrow> 'a mutex option" where
  "resume k m =
     (if length (lock_calls m) \<le> k then None
      else (let c = lock_calls m ! k in
            case call_progress c of
              Awaiting_prev \<Rightarrow>
                if resolved m (call_prev c)
                then Some (m\<lparr>lock_calls :=
                             (lock_calls m)[k := c\<lparr>call_progress := In_fn (op_effects (call_fn c))\<rparr>]\<rparr>)
                else None
            | In_fn [] \<Rightarrow>
                Some (m\<lparr>lock_promises := (lock_promises m)[call_release c := True],
                        lock_calls := (lock_calls m)[k := c\<lparr>call_progress :=
                                   (if op_throws (call_fn c) then Thrown else Returned)\<rparr>]\<rparr>)
            | In_fn (e # es) \<Rightarrow>
                Some (m\<lparr>lock_calls := (lock_calls m)[k := c\<lparr>call_progress := In_fn es\<rparr>],
                        lock_log := lock_log m @ [e]\<rparr>)
            | Returned \<Rightarrow> None
            | Thrown \<Rightarrow> None))"

datatype 'a mutex_event = Call "'a operation" | Resume nat

fun mutex_step :: "'a mutex_event \<Rightarrow> 'a mutex \<Rightarrow> 'a mutex option" where
  "mutex_step (Call f) m = Some (runExclusive f m)"
| "mutex_step (Resume k) m = resume k m"

fun mutex_run :: "'a mutex_event list \<Rightarrow> 'a mutex \<Rightarrow> 'a mutex option" where
  "mutex_run [] m = Some m"
| "mutex_run (ev # evs) m =
     (case mutex_step ev m of None \<Rightarrow> None | Some m' \<Rightarrow> mutex_run evs m')"

text \<open>The operations submitted by a sequence of events, in order.\<close>

fun submitted :: "'a mutex_event list \<Rightarrow> 'a operation list" where
  "submitted [] = []"
| "submitted (Call f # evs) = f # submitted evs"
| "submitted (Resume k # evs) = submitted evs"

text \<open>The effects a call has performed so far, and whether it has started or ended.\<close>

definition performed :: "'a call \<Rightarrow> 'a list" where
  "performed c =
     (case call_progress c of
        Awaiting_prev \<Rightarrow> []
      | In_fn rest \<Rightarrow> take (length (op_effects (call_fn c)) - length rest) (op_effects (call_fn c))
      | Returned \<Rightarrow> op_effects (call_fn c)
      | Thrown \<Rightarrow> op_effects (call_fn c))"

definition started :: "'a call \<Rightarrow> bool" where
  "started c = (call_progress c \<noteq> Awaiting_prev)"

definition ended :: "'a call \<Rightarrow> bool" where
  "ended c = (call_progress c = Returned \<or> call_progress c = Thrown)"

text \<open>What holds of the lock in every state it can reach.\<close>

definition mutex_inv :: "'a mutex \<Rightarrow> bool" where
  "mutex_inv m =
     (length (lock_promises m) = Suc (length (lock_calls m))
      \<and> lock_p m = length (lock_calls m)
      \<and> lock_promises m ! 0
      \<and> (\<forall>i<length (lock_calls m).
            call_prev (lock_calls m ! i) = i \<and> call_release (lock_calls m ! i) = Suc i
            \<and> lock_promises m ! Suc i = ended (lock_calls m ! i)
            \<and> (started (lock_calls m ! i) \<longrightarrow> (\<forall>j<i. ended (lock_calls m ! j)))
            \<and> (\<forall>rest. call_progress (lock_calls m ! i) = In_fn rest
                  \<longrightarrow> suffix rest (op_effects (call_fn (lock_calls m ! i)))))
      \<and> lock_log m = concat (map performed (lock_calls m)))"

section \<open>Sample inputs\<close>

text \<open>
  A stand-in for \<open>JSON.parse\<close> on the handful of texts used in the worked examples
  below; every other text is rejected with a \<open>SyntaxError\<close>. The theorems themselves
  hold for every parser.
\<close>

definition dq :: string where
  "dq = [CHR 0x22]"

definition sample_JSON_parse :: "string \<Rightarrow> string + json" where
  "sample_JSON_parse s =
     (if s = ''{}'' then Inr (JObj [])
      else if s = ''true'' then Inr (JBool True)
      else if s = ''{'' @ dq @ ''verdict'' @ dq @ '':'' @ dq @ ''PASS'' @ dq @ ''}''
        then Inr (JObj [(''verdict'', JStr ''PASS'')])
      else if s = ''{'' @ dq @ ''verdict'' @ dq @ '':'' @ dq @ ''FAIL'' @ dq @ ''}''
        then Inr (JObj [(''verdict'', JStr ''FAIL'')])
      else if s = ''{'' @ dq @ ''exitCriteriaMet'' @ dq @ '':true}''
        then Inr (JObj [(''exitCriteriaMet'', JBool True)])
      else if s = ''{'' @ dq @ ''wantsRefactor'' @ dq @ '':true}''
        then Inr (JObj [(''wantsRefactor'', JBool True)])
      else Inl ''SyntaxError: Unexpected token'')"

text \<open>Responses of the three roles carrying those reports.\<close>

definition builder_met_text :: string where
  "builder_met_text =
     ''ok <<<BUILDER_REPORT_JSON>>> {'' @ dq @ ''exitCriteriaMet'' @ dq @ '':true} <<<END>>>''"

definition builder_wants_text :: string where
  "builder_wants_text =
     ''<<<BUILDER_REPORT_JSON>>>{'' @ dq @ ''wantsRefactor'' @ dq @ '':true}<<<END>>>''"

definition verifier_pass_text :: string where
  "verifier_pass_text =
     ''<<<VERIFIER_REPORT_JSON>>>{'' @ dq @ ''verdict'' @ dq @ '':'' @ dq @ ''PASS'' @ dq
       @ ''}<<<END>>>''"

definition verifier_fail_text :: string where
  "verifier_fail_text =
     ''<<<VERIFIER_REPORT_JSON>>>{'' @ dq @ ''verdict'' @ dq @ '':'' @ dq @ ''FAIL'' @ dq
       @ ''}<<<END>>>''"

definition sample_opts :: ToolOpts where
  "sample_opts = \<lparr>workspaceRoot = ''/ws'', allowUnsafe = False\<rparr>"

text \<open>A stand-in for \<open>JSON.stringify\<close>, right on the empty array, and a configuration.\<close>

definition sample_JSON_stringify :: "json \<Rightarrow> string" where
  "sample_JSON_stringify v = (case v of JArr [] \<Rightarrow> ''[]'' | _ \<Rightarrow> ''{}'')"

definition sample_js :: JS where
  "sample_js = \<lparr>JSON_parse = sample_JSON_parse, JSON_stringify = sample_JSON_stringify\<rparr>"

definition sample_run_opts :: OrchestratorOpts where
  "sample_run_opts = \<lparr>maxIterations = 80, verifierIntervalSec = 90\<rparr>"

definition one_pass_opts :: OrchestratorOpts where
  "one_pass_opts = \<lparr>maxIterations = 1, verifierIntervalSec = 90\<rparr>"

text \<open>Sub-records of the shared state as those responses leave them.\<close>

definition builder_none :: BuilderState where
  "builder_none = \<lparr>builder_lastReport = None, exitCriteriaMet = False, wantsRefactor = False\<rparr>"

definition builder_plain :: BuilderState where
  "builder_plain =
     \<lparr>builder_lastReport = Some (JStr ''no report''), exitCriteriaMet = False,
      wantsRefactor = False\<rparr>"

definition builder_met :: BuilderState where
  "builder_met =
     \<lparr>builder_lastReport = Some (JObj [(''exitCriteriaMet'', JBool True)]),
      exitCriteriaMet = True, wantsRefactor = False\<rparr>"

definition builder_wants :: BuilderState where
  "builder_wants =
     \<lparr>builder_lastReport = Some (JObj [(''wantsRefactor'', JBool True)]),
      exitCriteriaMet = False, wantsRefactor = True\<rparr>"

definition verifier_none :: VerifierState where
  "verifier_none =
     \<lparr>verifier_lastReport = None, verdict = JStr ''UNKNOWN'', blockers = None,
      refactorRecommended = False\<rparr>"

definition verifier_plain :: VerifierState where
  "verifier_plain =
     \<lparr>verifier_lastReport = Some (JStr ''no report''), verdict = JStr ''UNKNOWN'',
      blockers = Some (JArr []), refactorRecommended = False\<rparr>"

definition verifier_pass :: VerifierState where
  "verifier_pass =
     \<lparr>verifier_lastReport = Some (JObj [(''verdict'', JStr ''PASS'')]), verdict = JStr ''PASS'',
      blockers = Some (JArr []), refactorRecommended = False\<rparr>"

definition verifier_fail :: VerifierState where
  "verifier_fail =
     \<lparr>verifier_lastReport = Some (JObj [(''verdict'', JStr ''FAIL'')]), verdict = JStr ''FAIL'',
      blockers = Some (JArr []), refactorRecommended = False\<rparr>"

definition refactorer_none :: RefactorerState where
  "refactorer_none = \<lparr>refactorer_lastReport = None, ranCount = 0, lastRanAt = None\<rparr>"

definition refactorer_ran :: RefactorerState where
  "refactorer_ran =
     \<lparr>refactorer_lastReport = Some (JStr ''tidied''), ranCount = 1, lastRanAt = Some 1000\<rparr>"

text \<open>A state of the first pass (iteration 1, started at time 0).\<close>

definition pass1 ::
  "BuilderState \<Rightarrow> VerifierState \<Rightarrow> RefactorerState \<Rightarrow> bool \<Rightarrow> bool \<Rightarrow> nat
     \<Rightarrow> builder_pc \<Rightarrow> verifier_pc \<Rightarrow> refactorer_pc \<Rightarrow> orchestrator" where
  "pass1 b v r ab trig t bl vl rl =
     \<lparr>state = \<lparr>startedAt = 0, iteration = 1, builder = b, verifier = v, refactorer = r\<rparr>,
      aborted = ab, refactorTriggerRequested = trig, now = t,
      builderLoop = bl, verifierLoop = vl, refactorerLoop = rl\<rparr>"

text \<open>
  With one pass allowed: the Builder has used it without meeting the exit criteria, the
  Verifier is being invoked, the Refactorer polls; \<open>t\<close> is the time.
\<close>

definition stalled :: "nat \<Rightarrow> orchestrator" where
  "stalled t =
     pass1 builder_plain verifier_plain refactorer_none False False t
       B_done V_prompt (R_sleep (t + 1000))"

definition stalled_cycle :: "event list" where
  "stalled_cycle =
     [Settle Verifier (Fulfilled ''no report''), Settle Verifier (Fulfilled ''''),
      Tick 90000, Timer Verifier, Timer Refactorer]"

text \<open>
  Two operations for the lock, each logging before and after a delay; the first one
  throws at its end.
\<close>

definition op_a :: "string operation" where
  "op_a = \<lparr>op_effects = [''a-before'', ''a-after''], op_throws = True\<rparr>"

definition op_b :: "string operation" where
  "op_b = \<lparr>op_effects = [''b-before'', ''b-after''], op_throws = False\<rparr>"

section \<open>Properties of the report extractor\<close>

lemma index_scan_None:
  "index_scan pat xs k = None \<longleftrightarrow> (\<forall>m \<le> length xs. \<not> prefix pat (drop m xs))"
proof (induction xs arbitrary: k)
  case Nil
  then show ?case by auto
next
  case (Cons c cs)
  show ?case
  proof (cases "prefix pat (c # cs)")
    case True
    then show ?thesis by (auto intro: exI[of _ 0])
  next
    case False
    have "(\<forall>m \<le> length (c # cs). \<not> prefix pat (drop m (c # cs)))
          \<longleftrightarrow> (\<forall>m \<le> length cs. \<not> prefix pat (drop m cs))"
    proof
      assume h: "\<forall>m \<le> length (c # cs). \<not> prefix pat (drop m (c # cs))"
      show "\<forall>m \<le> length cs. \<not> prefix pat (drop m cs)"
      proof (intro allI impI)
        fix m assume "m \<le> length cs"
        with h have "\<not> prefix pat (drop (Suc m) (c # cs))" by (metis Suc_le_mono length_Cons)
        then show "\<not> prefix pat (drop m cs)" by simp
      qed
    next
      assume h: "\<forall>m \<le> length cs. \<not> prefix pat (drop m cs)"
      show "\<forall>m \<le> length (c # cs). \<not> prefix pat (drop m (c # cs))"
      proof (intro allI impI)
        fix m assume m: "m \<le> length (c # cs)"
        show "\<not> prefix pat (drop m (c # cs))"
        proof (cases m)
          case 0
          with False show ?thesis by simp
        next
          case (Suc n)
          with m h show ?thesis by simp
        qed
      qed
    qed
    with False Cons.IH[of "Suc k"] show ?thesis by simp
  qed
qed

lemma index_scan_Some:
  "index_scan pat xs k = Some n \<longleftrightarrow>
     (\<exists>m. n = k + m \<and> m \<le> length xs \<and> prefix pat (drop m xs)
          \<and> (\<forall>m' < m. \<not> prefix pat (drop m' xs)))"
proof (induction xs arbitrary: k)
  case Nil
  then show ?case by auto
next
  case (Cons c cs)
  show ?case
  proof (cases "prefix pat (c # cs)")
    case True
    have "(\<exists>m. n = k + m \<and> m \<le> length (c # cs) \<and> prefix pat (drop m (c # cs))
          \<and> (\<forall>m' < m. \<not> prefix pat (drop m' (c # cs)))) \<longleftrightarrow> n = k"
    proof
      assume "\<exists>m. n = k + m \<and> m \<le> length (c # cs) \<and> prefix pat (drop m (c # cs))
          \<and> (\<forall>m' < m. \<not> prefix pat (drop m' (c # cs)))"
      then obtain m where m: "n = k + m" "\<forall>m' < m. \<not> prefix pat (drop m' (c # cs))" by blast
      have "m = 0"
      proof (rule ccontr)
        assume "m \<noteq> 0"
        then have "0 < m" by simp
        with m(2) have "\<not> prefix pat (drop 0 (c # cs))" by blast
        with True show False by simp
      qed
      with m show "n = k" by simp
    next
      assume "n = k"
      with True show "\<exists>m. n = k + m \<and> m \<le> length (c # cs) \<and> prefix pat (drop m (c # cs))
          \<and> (\<forall>m' < m. \<not> prefix pat (drop m' (c # cs)))"
        by (intro exI[of _ 0]) simp
    qed
    with True show ?thesis by auto
  next
    case False
    have "(\<exists>m. n = k + m \<and> m \<le> length (c # cs) \<and> prefix pat (drop m (c # cs))
          \<and> (\<forall>m' < m. \<not> prefix pat (drop m' (c # cs))))
       \<longleftrightarrow> (\<exists>m. n = Suc k + m \<and> m \<le> length cs \<and> prefix pat (drop m cs)
          \<and> (\<forall>m' < m. \<not> prefix pat (drop m' cs)))" (is "?L \<longleftrightarrow> ?R")
    proof
      assume ?L
      then obtain m where m: "n = k + m" "m \<le> length (c # cs)" "prefix pat (drop m (c # cs))"
          "\<forall>m' < m. \<not> prefix pat (drop m' (c # cs))" by blast
      from m(3) False obtain m0 where m0: "m = Suc m0" by (cases m) auto
      have "\<forall>m' < m0. \<not> prefix pat (drop m' cs)"
      proof (intro allI impI)
        fix m' assume "m' < m0"
        then have "Suc m' < m" using m0 by simp
        with m(4) have "\<not> prefix pat (drop (Suc m') (c # cs))" by blast
        then show "\<not> prefix pat (drop m' cs)" by simp
      qed
      with m m0 show ?R by (intro exI[of _ m0]) simp
    next
      assume ?R
      then obtain m where m: "n = Suc k + m" "m \<le> length cs" "prefix pat (drop m cs)"
          "\<forall>m' < m. \<not> prefix pat (drop m' cs)" by blast
      have "\<forall>m' < Suc m. \<not> prefix pat (drop m' (c # cs))"
      proof (intro allI impI)
        fix m' assume lt: "m' < Suc m"
        show "\<not> prefix pat (drop m' (c # cs))"
        proof (cases m')
          case 0
          with False show ?thesis by simp
        next
          case (Suc j)
          with lt m(4) show ?thesis by simp
        qed
      qed
      with m show ?L by (intro exI[of _ "Suc m"]) simp
    qed
    with False Cons.IH[of "Suc k"] show ?thesis by simp
  qed
qed


lemma indexOf_Some:
  assumes "pat \<noteq> []"
  shows "indexOf text pat from = Some n \<longleftrightarrow>
     (from \<le> n \<and> occurs_at pat text n \<and> (\<forall>k\<in>{from..<n}. \<not> occurs_at pat text k))"
proof (cases "from \<le> length text")
  case False
  with assms show ?thesis by (auto simp: indexOf_def occurs_at_def)
next
  case True
  have "indexOf text pat from = Some n \<longleftrightarrow>
        (\<exists>m. n = from + m \<and> m \<le> length text - from \<and> prefix pat (drop (from + m) text)
          \<and> (\<forall>m' < m. \<not> prefix pat (drop (from + m') text)))"
    using True by (simp add: indexOf_def index_scan_Some min_def add.commute)
  also have "\<dots> \<longleftrightarrow> (from \<le> n \<and> occurs_at pat text n \<and> (\<forall>k\<in>{from..<n}. \<not> occurs_at pat text k))"
    (is "?L \<longleftrightarrow> ?R")
  proof
    assume ?L
    then obtain m where m: "n = from + m" "m \<le> length text - from" "prefix pat (drop (from + m) text)"
      "\<forall>m' < m. \<not> prefix pat (drop (from + m') text)" by blast
    have "\<not> occurs_at pat text k" if "k \<in> {from..<n}" for k
    proof -
      from that m(1) have "k - from < m" "k = from + (k - from)" by auto
      with m(4) show ?thesis unfolding occurs_at_def by metis
    qed
    with m True show ?R by (auto simp: occurs_at_def)
  next
    assume r: ?R
    define m where "m = n - from"
    from r have n: "n = from + m" "n \<le> length text" "prefix pat (drop n text)"
      by (auto simp: m_def occurs_at_def)
    have "\<not> prefix pat (drop (from + m') text)" if "m' < m" for m'
    proof -
      from that n have "from + m' \<in> {from..<n}" "from + m' \<le> length text" by auto
      with r show ?thesis by (auto simp: occurs_at_def)
    qed
    with n show ?L by (intro exI[of _ m]) auto
  qed
  finally show ?thesis .
qed

lemma indexOf_None:
  assumes "pat \<noteq> []"
  shows "indexOf text pat from = None \<longleftrightarrow> (\<forall>k\<in>{from..length text}. \<not> occurs_at pat text k)"
proof (cases "from \<le> length text")
  case False
  with assms show ?thesis by (auto simp: indexOf_def)
next
  case True
  have "indexOf text pat from = None \<longleftrightarrow>
        (\<forall>m \<le> length text - from. \<not> prefix pat (drop (from + m) text))"
    using True by (simp add: indexOf_def index_scan_None add.commute)
  also have "\<dots> \<longleftrightarrow> (\<forall>k\<in>{from..length text}. \<not> occurs_at pat text k)" (is "?L \<longleftrightarrow> ?R")
  proof
    assume l: ?L
    show ?R
    proof
      fix k assume k: "k \<in> {from..length text}"
      then have "k - from \<le> length text - from" "k = from + (k - from)" by auto
      with l have "\<not> prefix pat (drop k text)" by metis
      then show "\<not> occurs_at pat text k" by (simp add: occurs_at_def)
    qed
  next
    assume r: ?R
    show ?L
    proof (intro allI impI)
      fix m assume "m \<le> length text - from"
      with True have "from + m \<in> {from..length text}" by auto
      with r have "\<not> occurs_at pat text (from + m)" by blast
      then show "\<not> prefix pat (drop (from + m) text)"
        using \<open>from + m \<in> {from..length text}\<close> by (simp add: occurs_at_def)
    qed
  qed
  finally show ?thesis .
qed


lemma indexOf_first_occurrence:
  "pat \<noteq> [] \<Longrightarrow> indexOf text pat from = Some n \<longleftrightarrow> first_occurrence pat text from n"
  by (simp add: indexOf_Some first_occurrence_def)

lemma indexOf_exists:
  assumes "pat \<noteq> []" "occurs_at pat text b" "from \<le> b"
  shows "\<exists>n. indexOf text pat from = Some n \<and> n \<le> b"
proof -
  from assms have "b \<in> {from..length text}" by (simp add: occurs_at_def)
  with assms(1,2) have "indexOf text pat from \<noteq> None"
    by (auto simp: indexOf_None)
  then obtain n where n: "indexOf text pat from = Some n" by blast
  have "n \<le> b"
  proof (rule ccontr)
    assume "\<not> n \<le> b"
    with assms(3) have "b \<in> {from..<n}" by simp
    with n assms(1,2) show False by (auto simp: indexOf_Some)
  qed
  with n show ?thesis by blast
qed

lemma occurs_at_split:
  assumes "occurs_at pat text k"
  shows "text = take k text @ pat @ drop (k + length pat) text"
proof -
  from assms obtain r where r: "drop k text = pat @ r" by (auto simp: occurs_at_def prefix_def)
  have "drop (k + length pat) text = drop (length pat) (drop k text)" by (simp add: add.commute)
  with r have "drop (k + length pat) text = r" by simp
  with r have "drop k text = pat @ drop (k + length pat) text" by simp
  then show ?thesis by (metis append_take_drop_id)
qed

lemma start_marker_nonempty: "start_marker tag \<noteq> []"
  by (simp add: start_marker_def)

lemma end_marker_nonempty: "end_marker \<noteq> []"
  by (simp add: end_marker_def)

lemma extract_at:
  assumes i: "first_occurrence (start_marker tag) text 0 i"
    and j: "first_occurrence end_marker text (i + length (start_marker tag)) j"
  shows "extractTaggedJson P text tag =
           Some (report_of P (trim (slice text (i + length (start_marker tag)) j)))"
proof -
  from i have "indexOf text (start_marker tag) 0 = Some i"
    by (simp add: indexOf_first_occurrence start_marker_nonempty)
  moreover from j have "indexOf text end_marker (i + length (start_marker tag)) = Some j"
    by (simp add: indexOf_first_occurrence end_marker_nonempty)
  ultimately show ?thesis
    by (simp add: extractTaggedJson_def report_of_def Let_def split: sum.splits)
qed

lemma block_decomposition:
  assumes i: "occurs_at s text i" and j: "occurs_at e text j" and le: "i + length s \<le> j"
  shows "text = take i text @ s @ slice text (i + length s) j @ e @ drop (j + length e) text"
proof -
  have 1: "text = take i text @ s @ drop (i + length s) text"
    using occurs_at_split[OF i] .
  have 2: "text = take j text @ e @ drop (j + length e) text"
    using occurs_at_split[OF j] .
  have jl: "j \<le> length text" using j by (simp add: occurs_at_def)
  have "drop (i + length s) text = slice text (i + length s) j @ drop j text"
  proof -
    have "drop j text = drop (j - (i + length s)) (drop (i + length s) text)"
      using le by simp
    then show ?thesis
      unfolding slice_def by (metis append_take_drop_id)
  qed
  moreover have "drop j text = e @ drop (j + length e) text"
    using 2 jl by (metis append_eq_conv_conj length_take min.absorb2)
  ultimately show ?thesis using 1 by simp
qed

lemma sample_JSON_parse_trim:
  "sample_JSON_parse s = Inr w \<Longrightarrow> sample_JSON_parse (trim s) = Inr w"
  by (auto simp: sample_JSON_parse_def dq_def trim_def is_white_space_def split: if_splits)

text \<open>
  C6. Whenever the text contains a start marker for the tag and an end marker that begins
  at or after the end of that start marker, the text splits as
  \<open>pre @ start @ mid @ end @ post\<close> where the start marker shown is the first one in the
  text and the end marker shown is the first one after it (no nesting is tracked). The
  extractor parses \<open>mid\<close> with its surrounding white space trimmed, and when \<open>mid\<close> is
  valid JSON it returns the parsed value (a JSON parser accepts a valid text with or
  without surrounding white space).
\<close>

theorem extract_selects_first_block:
  assumes "occurs_at (start_marker tag) text a"
    and "occurs_at end_marker text b"
    and "a + length (start_marker tag) \<le> b"
  shows "\<exists>pre mid post.
      text = pre @ start_marker tag @ mid @ end_marker @ post
    \<and> first_occurrence (start_marker tag) text 0 (length pre)
    \<and> first_occurrence end_marker text (length pre + length (start_marker tag))
         (length pre + length (start_marker tag) + length mid)
    \<and> extractTaggedJson P text tag = Some (report_of P (trim mid))
    \<and> (\<forall>v. (\<forall>s w. P s = Inr w \<longrightarrow> P (trim s) = Inr w) \<longrightarrow> P mid = Inr v
           \<longrightarrow> extractTaggedJson P text tag = Some v)"
proof -
  let ?s = "start_marker tag"
  from indexOf_exists[OF start_marker_nonempty assms(1), of 0]
  obtain i where i: "indexOf text ?s 0 = Some i" "i \<le> a" by auto
  then have fi: "first_occurrence ?s text 0 i"
    by (simp add: indexOf_first_occurrence start_marker_nonempty)
  from i assms(3) have "i + length ?s \<le> b" by simp
  from indexOf_exists[OF end_marker_nonempty assms(2) this]
  obtain j where j: "indexOf text end_marker (i + length ?s) = Some j" by auto
  then have fj: "first_occurrence end_marker text (i + length ?s) j"
    by (simp add: indexOf_first_occurrence end_marker_nonempty)
  define pre where "pre = take i text"
  define mid where "mid = slice text (i + length ?s) j"
  define post where "post = drop (j + length end_marker) text"
  have oi: "occurs_at ?s text i" and oj: "occurs_at end_marker text j"
    and le: "i + length ?s \<le> j"
    using fi fj by (auto simp: first_occurrence_def)
  have dec: "text = pre @ ?s @ mid @ end_marker @ post"
    unfolding pre_def mid_def post_def by (rule block_decomposition[OF oi oj le])
  have il: "i \<le> length text" using oi by (simp add: occurs_at_def)
  have lpre: "length pre = i" using il by (simp add: pre_def)
  have jl: "j \<le> length text" using oj by (simp add: occurs_at_def)
  have lmid: "length mid = j - (i + length ?s)"
    using jl by (simp add: mid_def slice_def)
  have pos: "length pre + length ?s + length mid = j" using lpre lmid le by simp
  have ex: "extractTaggedJson P text tag = Some (report_of P (trim mid))"
    unfolding mid_def by (rule extract_at[OF fi fj])
  have "\<forall>v. (\<forall>s w. P s = Inr w \<longrightarrow> P (trim s) = Inr w) \<longrightarrow> P mid = Inr v
           \<longrightarrow> extractTaggedJson P text tag = Some v"
    using ex by (auto simp: report_of_def)
  with dec fi fj lpre pos ex show ?thesis
    by (intro exI[of _ pre] exI[of _ mid] exI[of _ post]) simp
qed


theorem extract_selects_first_block_witness:
  "occurs_at (start_marker ''T'') ''x<<<T>>> {} <<<END>>><<<T>>>true<<<END>>>'' 1
   \<and> occurs_at end_marker ''x<<<T>>> {} <<<END>>><<<T>>>true<<<END>>>'' 32
   \<and> 1 + length (start_marker ''T'') \<le> 32
   \<and> extractTaggedJson sample_JSON_parse ''x<<<T>>> {} <<<END>>><<<T>>>true<<<END>>>'' ''T''
       = Some (JObj [])
   \<and> (\<exists>pre mid post.
      ''x<<<T>>> {} <<<END>>><<<T>>>true<<<END>>>''
         = pre @ start_marker ''T'' @ mid @ end_marker @ post
    \<and> first_occurrence (start_marker ''T'') ''x<<<T>>> {} <<<END>>><<<T>>>true<<<END>>>'' 0
         (length pre)
    \<and> extractTaggedJson sample_JSON_parse ''x<<<T>>> {} <<<END>>><<<T>>>true<<<END>>>'' ''T''
         = Some (report_of sample_JSON_parse (trim mid)))"
proof -
  let ?t = "''x<<<T>>> {} <<<END>>><<<T>>>true<<<END>>>''"
  have h1: "occurs_at (start_marker ''T'') ?t 1"
    by (simp add: occurs_at_def start_marker_def)
  have h2: "occurs_at end_marker ?t 32"
    by (simp add: occurs_at_def end_marker_def)
  have h3: "1 + length (start_marker ''T'') \<le> 32"
    by (simp add: start_marker_def)
  have ev: "extractTaggedJson sample_JSON_parse ?t ''T'' = Some (JObj [])"
    by (simp add: extractTaggedJson_def start_marker_def end_marker_def indexOf_def
        slice_def trim_def is_white_space_def sample_JSON_parse_def)
  from extract_selects_first_block[OF h1 h2 h3, of sample_JSON_parse] h1 h2 h3 ev
  show ?thesis by blast
qed

text \<open>
  C7 as stated fails: the enclosed text is not kept verbatim. Between the markers of
  \<open><<<T>>> x <<<END>>>\<close> stands \<open>" x "\<close>; the value returned carries \<open>"x"\<close>.
\<close>

theorem extract_raw_not_verbatim_counterexample:
  "slice (start_marker ''T'' @ '' x '' @ end_marker) (length (start_marker ''T'')) 10 = '' x ''
   \<and> sample_JSON_parse '' x '' = Inl ''SyntaxError: Unexpected token''
   \<and> extractTaggedJson sample_JSON_parse (start_marker ''T'' @ '' x '' @ end_marker) ''T''
       = Some (JObj [(''parseError'', JStr ''SyntaxError: Unexpected token''), (''raw'', JStr ''x'')])
   \<and> extractTaggedJson sample_JSON_parse (start_marker ''T'' @ '' x '' @ end_marker) ''T''
       \<noteq> Some (JObj [(''parseError'', JStr ''SyntaxError: Unexpected token''), (''raw'', JStr '' x '')])"
  by (simp add: extractTaggedJson_def start_marker_def end_marker_def indexOf_def
      slice_def trim_def is_white_space_def sample_JSON_parse_def dq_def)

text \<open>
  C7, amended. The extractor is a total function (no input makes it throw). It returns
  "not found" when the start marker is absent, when the end marker is absent, and more
  generally when no end marker begins at or after the end of the first start marker.
  When both markers are present in that order and the enclosed text, trimmed of
  surrounding white space, fails to parse, it returns an object carrying the parse error
  and the trimmed enclosed text.
\<close>

theorem extract_total_cases:
  "((\<forall>k\<in>{0..length text}. \<not> occurs_at (start_marker tag) text k)
      \<longrightarrow> extractTaggedJson P text tag = None)
   \<and> ((\<forall>k\<in>{0..length text}. \<not> occurs_at end_marker text k)
      \<longrightarrow> extractTaggedJson P text tag = None)
   \<and> (first_occurrence (start_marker tag) text 0 i
       \<and> (\<forall>k\<in>{i + length (start_marker tag)..length text}. \<not> occurs_at end_marker text k)
      \<longrightarrow> extractTaggedJson P text tag = None)
   \<and> (occurs_at (start_marker tag) text a \<and> occurs_at end_marker text b
       \<and> a + length (start_marker tag) \<le> b
      \<longrightarrow> (\<exists>pre mid post.
            text = pre @ start_marker tag @ mid @ end_marker @ post
          \<and> first_occurrence (start_marker tag) text 0 (length pre)
          \<and> first_occurrence end_marker text (length pre + length (start_marker tag))
               (length pre + length (start_marker tag) + length mid)
          \<and> (\<forall>e. P (trim mid) = Inl e \<longrightarrow>
                extractTaggedJson P text tag
                  = Some (JObj [(''parseError'', JStr e), (''raw'', JStr (trim mid))]))))"
proof (intro conjI impI)
  assume "\<forall>k\<in>{0..length text}. \<not> occurs_at (start_marker tag) text k"
  then have "indexOf text (start_marker tag) 0 = None"
    by (simp add: indexOf_None start_marker_nonempty)
  then show "extractTaggedJson P text tag = None"
    by (simp add: extractTaggedJson_def)
next
  assume noend: "\<forall>k\<in>{0..length text}. \<not> occurs_at end_marker text k"
  show "extractTaggedJson P text tag = None"
  proof (cases "indexOf text (start_marker tag) 0")
    case None
    then show ?thesis by (simp add: extractTaggedJson_def)
  next
    case (Some i)
    from noend have "indexOf text end_marker (i + length (start_marker tag)) = None"
      by (simp add: indexOf_None end_marker_nonempty)
    with Some show ?thesis by (simp add: extractTaggedJson_def)
  qed
next
  assume h: "first_occurrence (start_marker tag) text 0 i
       \<and> (\<forall>k\<in>{i + length (start_marker tag)..length text}. \<not> occurs_at end_marker text k)"
  then have "indexOf text (start_marker tag) 0 = Some i"
    by (simp add: indexOf_first_occurrence start_marker_nonempty)
  moreover from h have "indexOf text end_marker (i + length (start_marker tag)) = None"
    by (simp add: indexOf_None end_marker_nonempty)
  ultimately show "extractTaggedJson P text tag = None"
    by (simp add: extractTaggedJson_def)
next
  assume h: "occurs_at (start_marker tag) text a \<and> occurs_at end_marker text b
       \<and> a + length (start_marker tag) \<le> b"
  let ?s = "start_marker tag"
  from h indexOf_exists[OF start_marker_nonempty, of tag "text" a 0]
  obtain i where i: "indexOf text ?s 0 = Some i" "i \<le> a" by auto
  then have fi: "first_occurrence ?s text 0 i"
    by (simp add: indexOf_first_occurrence start_marker_nonempty)
  from i h have "i + length ?s \<le> b" by simp
  with h indexOf_exists[OF end_marker_nonempty, of "text" b "i + length ?s"]
  obtain j where j: "indexOf text end_marker (i + length ?s) = Some j" by auto
  then have fj: "first_occurrence end_marker text (i + length ?s) j"
    by (simp add: indexOf_first_occurrence end_marker_nonempty)
  define pre where "pre = take i text"
  define mid where "mid = slice text (i + length ?s) j"
  define post where "post = drop (j + length end_marker) text"
  have oi: "occurs_at ?s text i" and oj: "occurs_at end_marker text j"
    and le: "i + length ?s \<le> j"
    using fi fj by (auto simp: first_occurrence_def)
  have dec: "text = pre @ ?s @ mid @ end_marker @ post"
    unfolding pre_def mid_def post_def by (rule block_decomposition[OF oi oj le])
  have lpre: "length pre = i" using oi by (simp add: pre_def occurs_at_def)
  have jl: "j \<le> length text" using oj by (simp add: occurs_at_def)
  have lmid: "length mid = j - (i + length ?s)"
    using jl by (simp add: mid_def slice_def)
  have pos: "length pre + length ?s + length mid = j" using lpre lmid le by simp
  have ex: "extractTaggedJson P text tag = Some (report_of P (trim mid))"
    unfolding mid_def by (rule extract_at[OF fi fj])
  then have "\<forall>e. P (trim mid) = Inl e \<longrightarrow>
      extractTaggedJson P text tag = Some (JObj [(''parseError'', JStr e), (''raw'', JStr (trim mid))])"
    by (simp add: report_of_def)
  with dec fi fj lpre pos
  show "\<exists>pre mid post.
            text = pre @ start_marker tag @ mid @ end_marker @ post
          \<and> first_occurrence (start_marker tag) text 0 (length pre)
          \<and> first_occurrence end_marker text (length pre + length (start_marker tag))
               (length pre + length (start_marker tag) + length mid)
          \<and> (\<forall>e. P (trim mid) = Inl e \<longrightarrow>
                extractTaggedJson P text tag
                  = Some (JObj [(''parseError'', JStr e), (''raw'', JStr (trim mid))]))"
    by (intro exI[of _ pre] exI[of _ mid] exI[of _ post]) simp
qed

theorem extract_total_cases_witness:
  "\<not> (\<exists>k\<in>{0..length ''no report''}. occurs_at (start_marker ''T'') ''no report'' k)
   \<and> extractTaggedJson sample_JSON_parse ''no report'' ''T'' = None
   \<and> \<not> (\<exists>k\<in>{0..length ''<<<T>>>{}''}. occurs_at end_marker ''<<<T>>>{}'' k)
   \<and> extractTaggedJson sample_JSON_parse ''<<<T>>>{}'' ''T'' = None
   \<and> first_occurrence (start_marker ''T'') ''<<<END>>><<<T>>>{}'' 0 9
   \<and> \<not> (\<exists>k\<in>{9 + length (start_marker ''T'')..length ''<<<END>>><<<T>>>{}''}.
         occurs_at end_marker ''<<<END>>><<<T>>>{}'' k)
   \<and> extractTaggedJson sample_JSON_parse ''<<<END>>><<<T>>>{}'' ''T'' = None
   \<and> occurs_at (start_marker ''T'') ''<<<T>>> {oops <<<END>>>'' 0
   \<and> occurs_at end_marker ''<<<T>>> {oops <<<END>>>'' 14
   \<and> 0 + length (start_marker ''T'') \<le> 14
   \<and> sample_JSON_parse ''{oops'' = Inl ''SyntaxError: Unexpected token''
   \<and> extractTaggedJson sample_JSON_parse ''<<<T>>> {oops <<<END>>>'' ''T''
        = Some (JObj [(''parseError'', JStr ''SyntaxError: Unexpected token''),
                      (''raw'', JStr ''{oops'')])"
proof -
  have "indexOf ''no report'' (start_marker ''T'') 0 = None"
    by (simp add: indexOf_def start_marker_def)
  then have a1: "\<forall>k\<in>{0..length ''no report''}. \<not> occurs_at (start_marker ''T'') ''no report'' k"
    by (simp add: indexOf_None start_marker_nonempty)
  have "indexOf ''<<<T>>>{}'' end_marker 0 = None"
    by (simp add: indexOf_def end_marker_def)
  then have a2: "\<forall>k\<in>{0..length ''<<<T>>>{}''}. \<not> occurs_at end_marker ''<<<T>>>{}'' k"
    by (simp add: indexOf_None end_marker_nonempty)
  have i3: "indexOf ''<<<END>>><<<T>>>{}'' (start_marker ''T'') 0 = Some 9"
    by (simp add: indexOf_def start_marker_def)
  have j3: "indexOf ''<<<END>>><<<T>>>{}'' end_marker (9 + length (start_marker ''T'')) = None"
    by (simp add: indexOf_def start_marker_def end_marker_def)
  have a3: "first_occurrence (start_marker ''T'') ''<<<END>>><<<T>>>{}'' 0 9
     \<and> (\<forall>k\<in>{9 + length (start_marker ''T'')..length ''<<<END>>><<<T>>>{}''}.
         \<not> occurs_at end_marker ''<<<END>>><<<T>>>{}'' k)"
    using i3 j3
    by (simp add: indexOf_None indexOf_first_occurrence end_marker_nonempty start_marker_nonempty)
  have a4: "occurs_at (start_marker ''T'') ''<<<T>>> {oops <<<END>>>'' 0
     \<and> occurs_at end_marker ''<<<T>>> {oops <<<END>>>'' 14
     \<and> 0 + length (start_marker ''T'') \<le> 14"
    by (simp add: occurs_at_def start_marker_def end_marker_def)
  have p4: "sample_JSON_parse ''{oops'' = Inl ''SyntaxError: Unexpected token''"
    by (simp add: sample_JSON_parse_def dq_def)
  from extract_total_cases[of "''no report''" "''T''" sample_JSON_parse] a1
  have r1: "extractTaggedJson sample_JSON_parse ''no report'' ''T'' = None" by blast
  from extract_total_cases[of "''<<<T>>>{}''" "''T''" sample_JSON_parse] a2
  have r2: "extractTaggedJson sample_JSON_parse ''<<<T>>>{}'' ''T'' = None" by blast
  from extract_total_cases[of "''<<<END>>><<<T>>>{}''" "''T''" sample_JSON_parse 9] a3
  have r3: "extractTaggedJson sample_JSON_parse ''<<<END>>><<<T>>>{}'' ''T'' = None" by blast
  have r4: "extractTaggedJson sample_JSON_parse ''<<<T>>> {oops <<<END>>>'' ''T''
        = Some (JObj [(''parseError'', JStr ''SyntaxError: Unexpected token''),
                      (''raw'', JStr ''{oops'')])"
    by (simp add: extractTaggedJson_def start_marker_def end_marker_def indexOf_def
        slice_def trim_def is_white_space_def sample_JSON_parse_def dq_def)
  from a1 a2 a3 a4 p4 r1 r2 r3 r4 show ?thesis by blast
qed

section \<open>Properties of the workspace tools\<close>

lemmas tool_defs = fs_read_def fs_write_def fs_apply_edits_def fs_delete_def fs_mkdir_def
  fs_glob_def fs_stat_def cmd_run_def invalid_input_def

lemma verifier_tool_names:
  "map fst (createVerifierTools opts) = [''fs_read'', ''fs_glob'', ''fs_stat'', ''cmd_run'']"
  by (simp add: createVerifierTools_def createCommonTools_def)

lemma verifier_tools_eq:
  "createVerifierTools opts =
     [(''fs_read'', fs_read opts), (''fs_glob'', fs_glob opts),
      (''fs_stat'', fs_stat opts), (''cmd_run'', cmd_run opts)]"
  by (simp add: createVerifierTools_def createCommonTools_def)

lemma fs_read_no_mutation: "fs_read opts inp files = Inr calls \<Longrightarrow> c \<in> set calls \<Longrightarrow> \<not> is_mutation c"
  by (auto simp: fs_read_def invalid_input_def split: tool_input.splits sum.splits option.splits)

lemma fs_glob_no_mutation: "fs_glob opts inp files = Inr calls \<Longrightarrow> c \<in> set calls \<Longrightarrow> \<not> is_mutation c"
  by (auto simp: fs_glob_def invalid_input_def split: tool_input.splits sum.splits option.splits)

lemma fs_stat_no_mutation: "fs_stat opts inp files = Inr calls \<Longrightarrow> c \<in> set calls \<Longrightarrow> \<not> is_mutation c"
  by (auto simp: fs_stat_def invalid_input_def split: tool_input.splits sum.splits option.splits)

lemma cmd_run_no_mutation: "cmd_run opts inp files = Inr calls \<Longrightarrow> c \<in> set calls \<Longrightarrow> \<not> is_mutation c"
  by (auto simp: cmd_run_def invalid_input_def split: tool_input.splits sum.splits option.splits if_splits)

lemma verifier_mode_refuses:
  "isl (fs_write opts verifier_mode inp files)"
  "isl (fs_apply_edits opts verifier_mode inp files)"
  "isl (fs_delete opts verifier_mode inp files)"
  "isl (fs_mkdir opts verifier_mode inp files)"
  by (auto simp: tool_defs split: tool_input.splits)

lemma verifier_mode_message:
  "fs_write opts verifier_mode (WriteInput p c k) files = Inl ''fs_write not available to verifier''"
  "fs_apply_edits opts verifier_mode (ApplyEditsInput p es) files = Inl ''fs_apply_edits not available to verifier''"
  "fs_delete opts verifier_mode (DeleteInput p) files = Inl ''fs_delete not available to verifier''"
  "fs_mkdir opts verifier_mode (MkdirInput p) files = Inl ''fs_mkdir not available to verifier''"
  by (simp_all add: tool_defs)

lemma common_tools_cases:
  assumes "(name, t) \<in> set (createCommonTools opts m)"
  shows "(name = ''fs_read'' \<and> t = fs_read opts) \<or> (name = ''fs_write'' \<and> t = fs_write opts m)
    \<or> (name = ''fs_apply_edits'' \<and> t = fs_apply_edits opts m) \<or> (name = ''fs_delete'' \<and> t = fs_delete opts m)
    \<or> (name = ''fs_mkdir'' \<and> t = fs_mkdir opts m) \<or> (name = ''fs_glob'' \<and> t = fs_glob opts)
    \<or> (name = ''fs_stat'' \<and> t = fs_stat opts) \<or> (name = ''cmd_run'' \<and> t = cmd_run opts)"
  using assms by (simp add: createCommonTools_def)

lemma mutating_only_four:
  assumes "(name, t) \<in> set (createCommonTools opts m)"
    and "t inp files = Inr calls" and "c \<in> set calls" and "is_mutation c"
  shows "name \<in> set mutating_tools"
proof -
  from common_tools_cases[OF assms(1)]
  consider "t = fs_read opts" | "t = fs_glob opts" | "t = fs_stat opts" | "t = cmd_run opts"
    | "name = ''fs_write''" | "name = ''fs_apply_edits''" | "name = ''fs_delete''"
    | "name = ''fs_mkdir''"
    by (elim disjE conjE) simp_all
  then show ?thesis
  proof cases
    case 1 with assms(2-4) fs_read_no_mutation show ?thesis by blast
  next
    case 2 with assms(2-4) fs_glob_no_mutation show ?thesis by blast
  next
    case 3 with assms(2-4) fs_stat_no_mutation show ?thesis by blast
  next
    case 4 with assms(2-4) cmd_run_no_mutation show ?thesis by blast
  next
    case 5 then show ?thesis by (simp add: mutating_tools_def)
  next
    case 6 then show ?thesis by (simp add: mutating_tools_def)
  next
    case 7 then show ?thesis by (simp add: mutating_tools_def)
  next
    case 8 then show ?thesis by (simp add: mutating_tools_def)
  qed
qed

lemma verifier_refuses_mutating:
  assumes "(name, t) \<in> set (createCommonTools opts verifier_mode)"
    and "name \<in> set mutating_tools"
  shows "isl (t inp files)"
proof -
  from common_tools_cases[OF assms(1)]
  consider "t = fs_write opts verifier_mode" | "t = fs_apply_edits opts verifier_mode"
    | "t = fs_delete opts verifier_mode" | "t = fs_mkdir opts verifier_mode"
    | "name = ''fs_read''" | "name = ''fs_glob''" | "name = ''fs_stat''" | "name = ''cmd_run''"
    by (elim disjE conjE) simp_all
  then show ?thesis
  proof cases
    case 1 then show ?thesis by (simp add: verifier_mode_refuses)
  next
    case 2 then show ?thesis by (simp add: verifier_mode_refuses)
  next
    case 3 then show ?thesis by (simp add: verifier_mode_refuses)
  next
    case 4 then show ?thesis by (simp add: verifier_mode_refuses)
  next
    case 5 with assms(2) show ?thesis by (simp add: mutating_tools_def)
  next
    case 6 with assms(2) show ?thesis by (simp add: mutating_tools_def)
  next
    case 7 with assms(2) show ?thesis by (simp add: mutating_tools_def)
  next
    case 8 with assms(2) show ?thesis by (simp add: mutating_tools_def)
  qed
qed

text \<open>
  C8. The tool object handed to the Verifier holds \<open>fs_read\<close>, \<open>fs_glob\<close>, \<open>fs_stat\<close> and
  \<open>cmd_run\<close> only: \<open>fs_write\<close>, \<open>fs_delete\<close>, \<open>fs_apply_edits\<close> and \<open>fs_mkdir\<close> are
  not in it. Those four are the only tools of the common tool object that can ever issue
  a call that changes the workspace (\<open>writeFile\<close>, \<open>mkdir\<close>, \<open>rm\<close>), and they only do so
  outside verifier mode: in verifier mode the \<open>execute\<close> of each of them fails with an error
  for every input. No tool the Verifier holds issues such a call. (\<open>cmd_run\<close> hands a
  command line to the shell; what the command does is outside the program.)
\<close>

theorem verifier_has_no_mutating_tool:
  "map fst (createVerifierTools opts) = [''fs_read'', ''fs_glob'', ''fs_stat'', ''cmd_run'']
   \<and> (\<forall>name\<in>set mutating_tools. name \<notin> fst ` set (createVerifierTools opts))
   \<and> (\<forall>name t m inp files calls.
         (name, t) \<in> set (createCommonTools opts m) \<and> t inp files = Inr calls
         \<and> (\<exists>c\<in>set calls. is_mutation c) \<longrightarrow> name \<in> set mutating_tools \<and> m \<noteq> verifier_mode)
   \<and> (\<forall>name t inp files.
         (name, t) \<in> set (createCommonTools opts verifier_mode) \<and> name \<in> set mutating_tools
         \<longrightarrow> isl (t inp files))
   \<and> fs_write opts verifier_mode (WriteInput p contents mkdirp) files
        = Inl ''fs_write not available to verifier''
   \<and> fs_apply_edits opts verifier_mode (ApplyEditsInput p edits) files
        = Inl ''fs_apply_edits not available to verifier''
   \<and> fs_delete opts verifier_mode (DeleteInput p) files
        = Inl ''fs_delete not available to verifier''
   \<and> fs_mkdir opts verifier_mode (MkdirInput p) files
        = Inl ''fs_mkdir not available to verifier''
   \<and> (\<forall>name t inp files calls.
         (name, t) \<in> set (createVerifierTools opts) \<and> t inp files = Inr calls
         \<longrightarrow> (\<forall>c\<in>set calls. \<not> is_mutation c))"
proof (intro conjI)
  show "map fst (createVerifierTools opts) = [''fs_read'', ''fs_glob'', ''fs_stat'', ''cmd_run'']"
    by (rule verifier_tool_names)
  show "\<forall>name\<in>set mutating_tools. name \<notin> fst ` set (createVerifierTools opts)"
    by (simp add: verifier_tools_eq mutating_tools_def)
  show "\<forall>name t m inp files calls.
         (name, t) \<in> set (createCommonTools opts m) \<and> t inp files = Inr calls
         \<and> (\<exists>c\<in>set calls. is_mutation c) \<longrightarrow> name \<in> set mutating_tools \<and> m \<noteq> verifier_mode"
  proof (intro allI impI)
    fix name t m inp files calls
    assume h: "(name, t) \<in> set (createCommonTools opts m) \<and> t inp files = Inr calls
         \<and> (\<exists>c\<in>set calls. is_mutation c)"
    then obtain c where c: "c \<in> set calls" "is_mutation c" by blast
    from h c have n: "name \<in> set mutating_tools" by (blast intro: mutating_only_four)
    have "m \<noteq> verifier_mode"
    proof
      assume "m = verifier_mode"
      with h n have "isl (t inp files)" by (blast intro: verifier_refuses_mutating)
      with h show False by simp
    qed
    with n show "name \<in> set mutating_tools \<and> m \<noteq> verifier_mode" by simp
  qed
  show "\<forall>name t inp files.
         (name, t) \<in> set (createCommonTools opts verifier_mode) \<and> name \<in> set mutating_tools
         \<longrightarrow> isl (t inp files)"
    by (blast intro: verifier_refuses_mutating)
  show "\<forall>name t inp files calls.
         (name, t) \<in> set (createVerifierTools opts) \<and> t inp files = Inr calls
         \<longrightarrow> (\<forall>c\<in>set calls. \<not> is_mutation c)"
    using fs_read_no_mutation fs_glob_no_mutation fs_stat_no_mutation cmd_run_no_mutation
    by (auto simp: verifier_tools_eq)
qed (simp_all add: verifier_mode_message)

theorem verifier_has_no_mutating_tool_witness:
  "map fst (createVerifierTools sample_opts) = [''fs_read'', ''fs_glob'', ''fs_stat'', ''cmd_run'']
   \<and> ''fs_write'' \<in> set mutating_tools
   \<and> ''fs_write'' \<notin> fst ` set (createVerifierTools sample_opts)
   \<and> (''fs_write'', fs_write sample_opts builder_mode) \<in> set (createCommonTools sample_opts builder_mode)
   \<and> fs_write sample_opts builder_mode (WriteInput ''a.txt'' ''hi'' None) Map.empty
        = Inr [WriteFile ''/ws/a.txt'' ''hi'']
   \<and> is_mutation (WriteFile ''/ws/a.txt'' ''hi'')
   \<and> (''fs_write'', fs_write sample_opts verifier_mode) \<in> set (createCommonTools sample_opts verifier_mode)
   \<and> isl (fs_write sample_opts verifier_mode (WriteInput ''a.txt'' ''hi'' None) Map.empty)
   \<and> fs_write sample_opts verifier_mode (WriteInput ''a.txt'' ''hi'' None) Map.empty
        = Inl ''fs_write not available to verifier''
   \<and> (''cmd_run'', cmd_run sample_opts) \<in> set (createVerifierTools sample_opts)
   \<and> cmd_run sample_opts (CmdInput ''npm test'' None) Map.empty = Inr [Exec ''npm test'' 600000]
   \<and> \<not> is_mutation (Exec ''npm test'' 600000)"
proof -
  note t = verifier_has_no_mutating_tool[of sample_opts "''a.txt''" "''hi''" None Map.empty]
  have m: "''fs_write'' \<in> set mutating_tools" by (simp add: mutating_tools_def)
  have b: "(''fs_write'', fs_write sample_opts builder_mode)
             \<in> set (createCommonTools sample_opts builder_mode)"
    by (simp add: createCommonTools_def)
  have w: "fs_write sample_opts builder_mode (WriteInput ''a.txt'' ''hi'' None) Map.empty
        = Inr [WriteFile ''/ws/a.txt'' ''hi'']"
    by (simp add: fs_write_def sample_opts_def safePath_def resolve_def relative_def
        path_segments_def normalize_segments_def normalize_step_def is_absolute_def
        startsWith_def includes_string_def indexOf_def Let_def)
  have v: "(''fs_write'', fs_write sample_opts verifier_mode)
             \<in> set (createCommonTools sample_opts verifier_mode)"
    by (simp add: createCommonTools_def)
  have c: "(''cmd_run'', cmd_run sample_opts) \<in> set (createVerifierTools sample_opts)"
    by (simp add: verifier_tools_eq)
  have r: "cmd_run sample_opts (CmdInput ''npm test'' None) Map.empty = Inr [Exec ''npm test'' 600000]"
    by (simp add: cmd_run_def sample_opts_def commandAllowed_def allowed_def trim_def
        is_white_space_def)
  from t m have 1: "''fs_write'' \<notin> fst ` set (createVerifierTools sample_opts)" by blast
  from t m v have 2: "isl (fs_write sample_opts verifier_mode (WriteInput ''a.txt'' ''hi'' None) Map.empty)"
    by blast
  from t c r have 3: "\<not> is_mutation (Exec ''npm test'' 600000)" by fastforce
  from t have 4: "map fst (createVerifierTools sample_opts) = [''fs_read'', ''fs_glob'', ''fs_stat'', ''cmd_run'']"
    and 5: "fs_write sample_opts verifier_mode (WriteInput ''a.txt'' ''hi'' None) Map.empty
        = Inl ''fs_write not available to verifier''"
    by simp_all
  from m b w v c r 1 2 3 4 5 show ?thesis by simp
qed

lemma startsWith_includes:
  assumes "startsWith s pat" and "pat \<noteq> []"
  shows "includes_string s pat"
proof -
  from assms(1) have "occurs_at pat s 0" by (simp add: startsWith_def occurs_at_def)
  then have "\<not> (\<forall>k\<in>{0..length s}. \<not> occurs_at pat s k)" by auto
  with assms(2) show ?thesis by (simp add: includes_string_def indexOf_None)
qed

lemma safePath_eq:
  "safePath root p =
     (if includes_string (relative root (resolve root p)) ''..''
      then Inl (''Path escapes workspaceRoot: '' @ p) else Inr (resolve root p))"
  using startsWith_includes[of "relative root (resolve root p)" "''..''"]
  by (auto simp: safePath_def Let_def)

lemma split_on_nonempty: "split_on c s \<noteq> []"
  by (induction s) (auto split: list.splits)

lemma split_on_no_sep: "seg \<in> set (split_on c s) \<Longrightarrow> c \<notin> set seg"
proof (induction s arbitrary: seg)
  case Nil
  then show ?case by simp
next
  case (Cons x xs)
  show ?case
  proof (cases "x = c")
    case True
    with Cons show ?thesis by auto
  next
    case False
    obtain w ws where w: "split_on c xs = w # ws"
      using split_on_nonempty[of c xs] by (cases "split_on c xs") auto
    with Cons False show ?thesis by auto
  qed
qed

lemma normalize_step_inv:
  assumes "\<forall>s\<in>set acc. normal_segment s" and "CHR ''/'' \<notin> set seg"
  shows "\<forall>s\<in>set (normalize_step acc seg). normal_segment s"
proof (cases "seg = [] \<or> seg = ''.''")
  case True
  with assms show ?thesis by (simp add: normalize_step_def)
next
  case False
  show ?thesis
  proof (cases "seg = ''..''")
    case True
    have "\<forall>s\<in>set (butlast acc). normal_segment s"
      using assms(1) by (meson in_set_butlastD)
    with True show ?thesis by (simp add: normalize_step_def)
  next
    case n: False
    from False n assms(2) have "normal_segment seg" by (simp add: normal_segment_def)
    with False n assms(1) show ?thesis by (simp add: normalize_step_def)
  qed
qed

lemma normalize_foldl_inv:
  assumes "\<forall>s\<in>set acc. normal_segment s" and "\<forall>s\<in>set segs. CHR ''/'' \<notin> set s"
  shows "\<forall>s\<in>set (foldl normalize_step acc segs). normal_segment s"
  using assms
proof (induction segs arbitrary: acc)
  case Nil
  then show ?case by simp
next
  case (Cons a segs)
  from Cons.prems have "\<forall>s\<in>set (normalize_step acc a). normal_segment s"
    by (intro normalize_step_inv) simp_all
  moreover from Cons.prems have "\<forall>s\<in>set segs. CHR ''/'' \<notin> set s" by simp
  ultimately have "\<forall>s\<in>set (foldl normalize_step (normalize_step acc a) segs). normal_segment s"
    by (rule Cons.IH)
  then show ?case by simp
qed

lemma path_segments_normal: "seg \<in> set (path_segments p) \<Longrightarrow> normal_segment seg"
proof -
  assume a: "seg \<in> set (path_segments p)"
  have "\<forall>s\<in>set (split_on CHR ''/'' p). CHR ''/'' \<notin> set s"
    using split_on_no_sep by blast
  then have "\<forall>s\<in>set (path_segments p). normal_segment s"
    unfolding path_segments_def normalize_segments_def
    by (intro normalize_foldl_inv) simp_all
  with a show ?thesis by blast
qed

lemma normalize_foldl_normal:
  assumes "\<forall>s\<in>set segs. normal_segment s"
  shows "foldl normalize_step acc segs = acc @ segs"
  using assms
proof (induction segs arbitrary: acc)
  case Nil
  then show ?case by simp
next
  case (Cons a segs)
  from Cons.prems have "normalize_step acc a = acc @ [a]"
    by (simp add: normalize_step_def normal_segment_def)
  moreover from Cons.prems have "foldl normalize_step (acc @ [a]) segs = (acc @ [a]) @ segs"
    by (intro Cons.IH) simp
  ultimately show ?case by simp
qed

lemma split_on_no_occurrence: "c \<notin> set s \<Longrightarrow> split_on c s = [s]"
  by (induction s) auto

lemma split_on_append:
  "c \<notin> set s \<Longrightarrow> split_on c (s @ c # rest) = s # split_on c rest"
  by (induction s) auto

lemma split_on_join:
  assumes "segs \<noteq> []" and "\<forall>s\<in>set segs. c \<notin> set s"
  shows "split_on c (join [c] segs) = segs"
  using assms
proof (induction "[c]" segs rule: join.induct)
  case 1
  then show ?case by simp
next
  case (2 x)
  then show ?case by (simp add: split_on_no_occurrence)
next
  case (3 x y ys)
  then show ?case by (simp add: split_on_append)
qed

lemma path_segments_of_joined:
  assumes "\<forall>s\<in>set segs. normal_segment s"
  shows "path_segments (''/'' @ join ''/'' segs) = segs"
proof (cases "segs = []")
  case True
  then show ?thesis by (simp add: path_segments_def normalize_segments_def normalize_step_def)
next
  case False
  have "split_on CHR ''/'' (join ''/'' segs) = segs"
    using split_on_join[OF False, of "CHR ''/''"] assms by (auto simp: normal_segment_def)
  then have "split_on CHR ''/'' (''/'' @ join ''/'' segs) = [] # segs" by simp
  then show ?thesis
    using normalize_foldl_normal[OF assms, of "[]"]
    by (simp add: path_segments_def normalize_segments_def normalize_step_def)
qed

lemma path_segments_resolve:
  "path_segments (resolve root p) =
     path_segments (if is_absolute p then p else root @ ''/'' @ p)"
  unfolding resolve_def by (rule path_segments_of_joined) (auto dest: path_segments_normal)

lemma common_prefix_length_le: "common_prefix_length xs ys \<le> length xs"
  by (induction xs ys rule: common_prefix_length.induct) auto

lemma common_prefix_length_full:
  "common_prefix_length xs ys = length xs \<Longrightarrow> prefix xs ys"
  by (induction xs ys rule: common_prefix_length.induct) (auto split: if_splits)

lemma join_dotdot_prefix:
  "0 < n \<Longrightarrow> prefix ''..'' (join ''/'' (replicate n ''..'' @ rest))"
proof -
  assume "0 < n"
  then obtain k where "n = Suc k" by (cases n) auto
  then have "replicate n ''..'' @ rest = ''..'' # (replicate k ''..'' @ rest)" by simp
  then show ?thesis by (cases "replicate k ''..'' @ rest") auto
qed

lemma outside_rejected:
  assumes "\<not> prefix (path_segments root) (path_segments (resolve root p))"
  shows "safePath root p = Inl (''Path escapes workspaceRoot: '' @ p)"
proof -
  let ?fs = "path_segments root" and ?ts = "path_segments (resolve root p)"
  have "common_prefix_length ?fs ?ts \<noteq> length ?fs"
    using assms common_prefix_length_full by blast
  with common_prefix_length_le[of ?fs ?ts]
  have "0 < length ?fs - common_prefix_length ?fs ?ts" by simp
  then have "startsWith (relative root (resolve root p)) ''..''"
    unfolding startsWith_def relative_def Let_def by (rule join_dotdot_prefix)
  then show ?thesis by (simp add: safePath_def Let_def)
qed

lemma guarded_tools_refuse:
  assumes "safePath (workspaceRoot opts) p = Inl e"
  shows "fs_read opts (ReadInput p maxBytes) files = Inl e"
    and "fs_stat opts (StatInput p) files = Inl e"
    and "isl (fs_write opts m (WriteInput p contents mkdirp) files)"
    and "isl (fs_apply_edits opts m (ApplyEditsInput p edits) files)"
    and "isl (fs_delete opts m (DeleteInput p) files)"
    and "isl (fs_mkdir opts m (MkdirInput p) files)"
    and "m \<noteq> verifier_mode \<Longrightarrow> fs_write opts m (WriteInput p contents mkdirp) files = Inl e"
    and "m \<noteq> verifier_mode \<Longrightarrow> fs_apply_edits opts m (ApplyEditsInput p edits) files = Inl e"
    and "m \<noteq> verifier_mode \<Longrightarrow> fs_delete opts m (DeleteInput p) files = Inl e"
    and "m \<noteq> verifier_mode \<Longrightarrow> fs_mkdir opts m (MkdirInput p) files = Inl e"
  using assms by (simp_all add: tool_defs)

text \<open>
  C10 as stated fails for one file-system capability: \<open>fs_glob\<close> never calls \<open>safePath\<close>,
  so it does not refuse \<open>a..b\<close>; nor does it refuse the pattern \<open>../*\<close>, which names the
  entries of the directory above the workspace root.
\<close>

theorem glob_not_guarded_counterexample:
  "safePath (workspaceRoot sample_opts) ''a..b'' = Inl ''Path escapes workspaceRoot: a..b''
   \<and> fs_glob sample_opts (GlobInput ''a..b'' None) Map.empty
       = Inr [Glob ''a..b'' [''**/node_modules/**'', ''**/dist/**'', ''**/.git/**'']]
   \<and> safePath (workspaceRoot sample_opts) ''../*'' = Inl ''Path escapes workspaceRoot: ../*''
   \<and> fs_glob sample_opts (GlobInput ''../*'' None) Map.empty
       = Inr [Glob ''../*'' [''**/node_modules/**'', ''**/dist/**'', ''**/.git/**'']]"
  by (simp add: fs_glob_def sample_opts_def safePath_def resolve_def relative_def
        path_segments_def normalize_segments_def normalize_step_def is_absolute_def
        startsWith_def includes_string_def indexOf_def Let_def)

text \<open>
  C10, amended. \<open>safePath\<close> rejects exactly the paths whose resolved form, taken relative
  to the workspace root, contains the substring \<open>..\<close> anywhere. That covers every path
  that resolves outside the root, and also in-workspace paths such as a file named
  \<open>a..b\<close>. Such a path is refused with an error by \<open>fs_read\<close>, \<open>fs_stat\<close>, \<open>fs_write\<close>,
  \<open>fs_apply_edits\<close>, \<open>fs_delete\<close> and \<open>fs_mkdir\<close> (outside verifier mode with the guard's
  own error; in verifier mode the four writing tools refuse every input).
\<close>

theorem path_guard_rejects_dotdot:
  "safePath root p =
     (if includes_string (relative root (resolve root p)) ''..''
      then Inl (''Path escapes workspaceRoot: '' @ p) else Inr (resolve root p))
   \<and> (\<not> prefix (path_segments root) (path_segments (resolve root p))
        \<longrightarrow> safePath root p = Inl (''Path escapes workspaceRoot: '' @ p))
   \<and> (safePath (workspaceRoot opts) q = Inl e \<longrightarrow>
          fs_read opts (ReadInput q maxBytes) files = Inl e
        \<and> fs_stat opts (StatInput q) files = Inl e
        \<and> isl (fs_write opts m (WriteInput q contents mkdirp) files)
        \<and> isl (fs_apply_edits opts m (ApplyEditsInput q edits) files)
        \<and> isl (fs_delete opts m (DeleteInput q) files)
        \<and> isl (fs_mkdir opts m (MkdirInput q) files)
        \<and> (m \<noteq> verifier_mode \<longrightarrow>
              fs_write opts m (WriteInput q contents mkdirp) files = Inl e
            \<and> fs_apply_edits opts m (ApplyEditsInput q edits) files = Inl e
            \<and> fs_delete opts m (DeleteInput q) files = Inl e
            \<and> fs_mkdir opts m (MkdirInput q) files = Inl e))"
proof (intro conjI impI)
  show "safePath root p =
     (if includes_string (relative root (resolve root p)) ''..''
      then Inl (''Path escapes workspaceRoot: '' @ p) else Inr (resolve root p))"
    by (rule safePath_eq)
qed (simp_all add: outside_rejected guarded_tools_refuse)

theorem path_guard_rejects_dotdot_witness:
  "safePath ''/ws'' ''a..b'' = Inl ''Path escapes workspaceRoot: a..b''
   \<and> resolve ''/ws'' ''a..b'' = ''/ws/a..b''
   \<and> relative ''/ws'' ''/ws/a..b'' = ''a..b''
   \<and> prefix (path_segments ''/ws'') (path_segments (resolve ''/ws'' ''a..b''))
   \<and> \<not> prefix (path_segments ''/ws'') (path_segments (resolve ''/ws'' ''../etc/passwd''))
   \<and> safePath ''/ws'' ''../etc/passwd'' = Inl ''Path escapes workspaceRoot: ../etc/passwd''
   \<and> safePath ''/ws'' ''src/index.ts'' = Inr ''/ws/src/index.ts''
   \<and> fs_read sample_opts (ReadInput ''a..b'' None) Map.empty
        = Inl ''Path escapes workspaceRoot: a..b''
   \<and> fs_stat sample_opts (StatInput ''a..b'') Map.empty
        = Inl ''Path escapes workspaceRoot: a..b''
   \<and> fs_write sample_opts builder_mode (WriteInput ''a..b'' ''x'' None) Map.empty
        = Inl ''Path escapes workspaceRoot: a..b''
   \<and> fs_apply_edits sample_opts builder_mode (ApplyEditsInput ''a..b'' []) Map.empty
        = Inl ''Path escapes workspaceRoot: a..b''
   \<and> fs_delete sample_opts refactorer_mode (DeleteInput ''a..b'') Map.empty
        = Inl ''Path escapes workspaceRoot: a..b''
   \<and> fs_mkdir sample_opts refactorer_mode (MkdirInput ''a..b'') Map.empty
        = Inl ''Path escapes workspaceRoot: a..b''"
proof -
  note path_eval = safePath_def resolve_def relative_def
        path_segments_def normalize_segments_def normalize_step_def is_absolute_def
        startsWith_def includes_string_def indexOf_def Let_def
  have s: "safePath (workspaceRoot sample_opts) ''a..b'' = Inl ''Path escapes workspaceRoot: a..b''"
    by (simp add: sample_opts_def path_eval)
  have r: "resolve ''/ws'' ''a..b'' = ''/ws/a..b''"
    and rl: "relative ''/ws'' ''/ws/a..b'' = ''a..b''"
    and i: "prefix (path_segments ''/ws'') (path_segments (resolve ''/ws'' ''a..b''))"
    and ok: "safePath ''/ws'' ''src/index.ts'' = Inr ''/ws/src/index.ts''"
    by (simp_all add: path_eval)
  have out: "\<not> prefix (path_segments ''/ws'') (path_segments (resolve ''/ws'' ''../etc/passwd''))"
    by (simp add: path_eval)
  note t = path_guard_rejects_dotdot[of "''/ws''" "''../etc/passwd''" sample_opts "''a..b''"
      "''Path escapes workspaceRoot: a..b''" None Map.empty _ "''x''" None "[]"]
  from t have "\<not> prefix (path_segments ''/ws'') (path_segments (resolve ''/ws'' ''../etc/passwd''))
      \<longrightarrow> safePath ''/ws'' ''../etc/passwd''
            = Inl (''Path escapes workspaceRoot: '' @ ''../etc/passwd'')"
    by (rule conjunct1[OF conjunct2])
  with out have 1: "safePath ''/ws'' ''../etc/passwd'' = Inl ''Path escapes workspaceRoot: ../etc/passwd''"
    by simp
  from t[of builder_mode] s have 2: "fs_read sample_opts (ReadInput ''a..b'' None) Map.empty
        = Inl ''Path escapes workspaceRoot: a..b''"
    and 3: "fs_stat sample_opts (StatInput ''a..b'') Map.empty
        = Inl ''Path escapes workspaceRoot: a..b''"
    and 4: "fs_write sample_opts builder_mode (WriteInput ''a..b'' ''x'' None) Map.empty
        = Inl ''Path escapes workspaceRoot: a..b''"
    and 5: "fs_apply_edits sample_opts builder_mode (ApplyEditsInput ''a..b'' []) Map.empty
        = Inl ''Path escapes workspaceRoot: a..b''"
    by simp_all
  from t[of refactorer_mode] s have 6: "fs_delete sample_opts refactorer_mode (DeleteInput ''a..b'') Map.empty
        = Inl ''Path escapes workspaceRoot: a..b''"
    and 7: "fs_mkdir sample_opts refactorer_mode (MkdirInput ''a..b'') Map.empty
        = Inl ''Path escapes workspaceRoot: a..b''"
    by simp_all
  from s r rl i ok out 1 2 3 4 5 6 7 show ?thesis by (simp add: sample_opts_def)
qed

section \<open>Properties of the orchestrator loops\<close>

lemma refactorer_loop_top_eq:
  "refactorer_loop_top s =
     (if aborted s then s\<lparr>refactorerLoop := R_done\<rparr>
      else if \<not> refactorTriggerRequested s then s\<lparr>refactorerLoop := R_sleep (sleep 1000 s)\<rparr>
      else if verdict (verifier (state s)) = JStr ''PASS''
           then s\<lparr>refactorTriggerRequested := False, refactorerLoop := R_sleep (sleep 1000 s)\<rparr>
           else s\<lparr>refactorTriggerRequested := False, refactorerLoop := R_prompt\<rparr>)"
  by (simp add: refactorer_loop_top.simps[of s]
      refactorer_loop_top.simps[of "s\<lparr>refactorTriggerRequested := False\<rparr>"] sleep_def)

lemmas loop_defs = builder_loop_top_def builder_report_def builder_check_def
  verifier_loop_top_def verifier_report_def verifier_check_def
  refactorer_loop_top_eq refactorer_report_def abort_def Let_def

lemmas pc_splits = builder_pc.splits verifier_pc.splits refactorer_pc.splits

lemma abort_idem: "abort (abort s) = abort s"
  by (simp add: abort_def)

lemma abort_aborted: "aborted (abort s)"
  by (simp add: abort_def)

lemma abort_when_aborted: "aborted s \<Longrightarrow> abort s = s"
  by (simp add: abort_def)

lemma step_aborted:
  assumes "step js opts ev s = Some s'"
  shows "aborted s' = (aborted s \<or> observes_completion ev s)"
  using assms
  by (cases "(js, opts, ev, s)" rule: step.cases)
     (auto simp: loop_defs observes_completion_def completion_check_def complete_def
           split: pc_splits if_splits)

lemma start_not_aborted: "\<not> aborted (start opts t0)"
  by (simp add: start_def loop_defs)

lemma step_iteration_aborted:
  assumes "step js opts ev s = Some s'" and "aborted s"
  shows "iteration (state s') = iteration (state s)"
  using assms
  by (cases "(js, opts, ev, s)" rule: step.cases)
     (auto simp: loop_defs split: pc_splits if_splits)

lemma run_aborted:
  assumes "run js opts evs s = Some s'" and "aborted s"
  shows "aborted s' \<and> iteration (state s') = iteration (state s)"
  using assms
proof (induction evs arbitrary: s)
  case Nil
  then show ?case by simp
next
  case (Cons ev evs)
  then obtain s1 where s1: "step js opts ev s = Some s1" "run js opts evs s1 = Some s'"
    by (auto split: option.splits)
  from s1(1) Cons.prems(2) have "aborted s1" by (simp add: step_aborted)
  moreover from s1(1) Cons.prems(2) have "iteration (state s1) = iteration (state s)"
    by (rule step_iteration_aborted)
  ultimately show ?case using Cons.IH[OF s1(2)] by simp
qed

lemma checkpoint_exits:
  assumes "aborted s" and "checkpoint r ev s"
  shows "\<exists>s'. step js opts ev s = Some s' \<and> loop_done r s'"
  using assms
  by (cases "(js, opts, ev, s)" rule: step.cases; cases r)
     (auto simp: loop_defs checkpoint_def split: pc_splits if_splits)


lemma run_Cons_Some:
  assumes "run js opts (ev # evs) s = Some s'"
  obtains s1 where "step js opts ev s = Some s1" and "run js opts evs s1 = Some s'"
  using assms by (auto split: option.splits)

lemma failure_step:
  assumes "awaiting_prompt r s"
  shows "\<exists>s'. step js opts (Settle r Rejected) s = Some s' \<and> state s' = state s
            \<and> aborted s' = aborted s \<and> refactorTriggerRequested s' = refactorTriggerRequested s
            \<and> now s' = now s \<and> loop_failed r s' \<and> other_loops_unchanged r s s'"
  using assms by (cases r) auto

lemma failed_disabled:
  assumes "loop_failed r s"
  shows "step js opts (Settle r out) s = None" and "step js opts (Timer r) s = None"
  using assms by (cases r; cases out; simp)+

lemma step_failed_preserved:
  assumes "step js opts ev s = Some s'" and "loop_failed r s"
  shows "loop_failed r s' \<and> same_sub_record r s s'"
  using assms
  by (cases "(js, opts, ev, s)" rule: step.cases; cases r)
     (auto simp: loop_defs split: pc_splits if_splits)

lemma run_failed_preserved:
  assumes "run js opts evs s = Some s'" and "loop_failed r s"
  shows "loop_failed r s' \<and> same_sub_record r s s'"
  using assms
proof (induction evs arbitrary: s)
  case Nil
  then show ?case by (cases r) simp_all
next
  case (Cons ev evs)
  from Cons.prems(1) obtain s1 where s1: "step js opts ev s = Some s1" "run js opts evs s1 = Some s'"
    by (rule run_Cons_Some)
  from step_failed_preserved[OF s1(1) Cons.prems(2)]
  have a: "loop_failed r s1" and b: "same_sub_record r s s1" by simp_all
  from Cons.IH[OF s1(2) a] b show ?case by (cases r) simp_all
qed

lemma consume_trigger:
  assumes "\<not> aborted s" and "refactorTriggerRequested s"
  shows "verdict (verifier (state s)) = JStr ''PASS'' \<Longrightarrow>
           refactorer_loop_top s
             = s\<lparr>refactorTriggerRequested := False, refactorerLoop := R_sleep (sleep 1000 s)\<rparr>"
    and "verdict (verifier (state s)) \<noteq> JStr ''PASS'' \<Longrightarrow>
           refactorer_loop_top s = s\<lparr>refactorTriggerRequested := False, refactorerLoop := R_prompt\<rparr>"
  using assms by (simp_all add: refactorer_loop_top_eq)

lemma refactorer_response:
  assumes "refactorerLoop s = R_prompt"
  shows "\<exists>s'. step js opts (Settle Refactorer (Fulfilled response)) s = Some s'
      \<and> ranCount (refactorer (state s')) = ranCount (refactorer (state s)) + 1
      \<and> lastRanAt (refactorer (state s')) = Some (now s)
      \<and> builder (state s') = builder (state s) \<and> verifier (state s') = verifier (state s)
      \<and> iteration (state s') = iteration (state s) \<and> startedAt (state s') = startedAt (state s)
      \<and> aborted s' = aborted s \<and> refactorTriggerRequested s' = refactorTriggerRequested s
      \<and> refactorerLoop s' = R_persist \<and> other_loops_unchanged Refactorer s s'"
  using assms by (simp add: refactorer_report_def Let_def)

lemma step_other_keeps_prompt:
  assumes "step js opts ev s = Some s'" and "refactorerLoop s = R_prompt"
    and "event_role ev \<noteq> Some Refactorer"
  shows "refactorerLoop s' = R_prompt \<and> refactorer (state s') = refactorer (state s)"
  using assms
  by (cases "(js, opts, ev, s)" rule: step.cases)
     (auto simp: loop_defs split: pc_splits if_splits)

lemma run_other_keeps_prompt:
  assumes "run js opts evs s = Some s'" and "refactorerLoop s = R_prompt"
    and "list_all (\<lambda>ev. event_role ev \<noteq> Some Refactorer) evs"
  shows "refactorerLoop s' = R_prompt \<and> refactorer (state s') = refactorer (state s)"
  using assms
proof (induction evs arbitrary: s)
  case Nil
  then show ?case by simp
next
  case (Cons ev evs)
  from Cons.prems(1) obtain s1 where s1: "step js opts ev s = Some s1" "run js opts evs s1 = Some s'"
    by (rule run_Cons_Some)
  from Cons.prems(3) have e: "event_role ev \<noteq> Some Refactorer"
    and es: "list_all (\<lambda>ev. event_role ev \<noteq> Some Refactorer) evs" by simp_all
  from step_other_keeps_prompt[OF s1(1) Cons.prems(2) e]
  have a: "refactorerLoop s1 = R_prompt" and b: "refactorer (state s1) = refactorer (state s)"
    by simp_all
  from Cons.IH[OF s1(2) a es] b show ?case by simp
qed









lemma step_now_mono:
  assumes "step js opts ev s = Some s'"
  shows "now s \<le> now s'"
  using assms
  by (cases "(js, opts, ev, s)" rule: step.cases)
     (auto simp: loop_defs split: pc_splits if_splits)

lemma run_now_mono:
  assumes "run js opts evs s = Some s'"
  shows "now s \<le> now s'"
  using assms
proof (induction evs arbitrary: s)
  case Nil
  then show ?case by simp
next
  case (Cons ev evs)
  from Cons.prems(1) obtain s1 where s1: "step js opts ev s = Some s1" "run js opts evs s1 = Some s'"
    by (rule run_Cons_Some)
  from step_now_mono[OF s1(1)] Cons.IH[OF s1(2)] show ?case by simp
qed

lemma step_late_sleep:
  assumes "step js opts ev s = Some s'" and "aborted s" and "verifierLoop s = V_sleep d"
  shows "(aborted s' \<and> verifierLoop s' = V_sleep d) \<or> d \<le> now s"
  using assms
  by (cases "(js, opts, ev, s)" rule: step.cases)
     (auto simp: loop_defs split: pc_splits if_splits)

lemma run_late_sleep:
  assumes "run js opts evs s = Some s'" and "aborted s" and "verifierLoop s = V_sleep d"
    and "now s' < d"
  shows "verifierLoop s' = V_sleep d"
  using assms
proof (induction evs arbitrary: s)
  case Nil
  then show ?case by simp
next
  case (Cons ev evs)
  from Cons.prems(1) obtain s1 where s1: "step js opts ev s = Some s1" "run js opts evs s1 = Some s'"
    by (rule run_Cons_Some)
  from step_now_mono[OF s1(1)] run_now_mono[OF s1(2)] Cons.prems(4) have "\<not> d \<le> now s" by simp
  with step_late_sleep[OF s1(1) Cons.prems(2,3)]
  have "aborted s1" "verifierLoop s1 = V_sleep d" by simp_all
  from Cons.IH[OF s1(2) this Cons.prems(4)] show ?case .
qed

lemma late_sleep_starts:
  assumes "verifierLoop s = V_persist" and "\<not> complete s"
  shows "\<exists>s'. step js opts (Settle Verifier (Fulfilled v)) s = Some s'
            \<and> verifierLoop s' = V_sleep (now s + verifierIntervalSec opts * 1000)
            \<and> aborted s' = aborted s \<and> now s' = now s"
  using assms by (auto simp: verifier_check_def complete_def sleep_def)

lemma abort_wakes:
  "\<not> aborted s \<Longrightarrow> verifierLoop s = V_sleep d \<Longrightarrow> verifierLoop (abort s) = V_woken"
  "\<not> aborted s \<Longrightarrow> refactorerLoop s = R_sleep d \<Longrightarrow> refactorerLoop (abort s) = R_woken"
  "aborted s \<Longrightarrow> verifierLoop s = V_sleep d \<Longrightarrow> verifierLoop (abort s) = V_sleep d"
  by (simp_all add: abort_def)

lemma run_raises_by_observation:
  assumes "run js opts evs s = Some s'" and "\<not> aborted s" and "aborted s'"
  shows "\<exists>pre ev post sp. evs = pre @ ev # post \<and> run js opts pre s = Some sp
           \<and> \<not> aborted sp \<and> observes_completion ev sp"
  using assms
proof (induction evs arbitrary: s)
  case Nil
  then show ?case by simp
next
  case (Cons ev evs)
  from Cons.prems(1) obtain s1 where s1: "step js opts ev s = Some s1" "run js opts evs s1 = Some s'"
    by (rule run_Cons_Some)
  show ?case
  proof (cases "aborted s1")
    case True
    with s1(1) Cons.prems(2) have "observes_completion ev s" by (simp add: step_aborted)
    with Cons.prems(2) have "ev # evs = [] @ ev # evs \<and> run js opts [] s = Some s
           \<and> \<not> aborted s \<and> observes_completion ev s" by simp
    then show ?thesis by blast
  next
    case False
    from Cons.IH[OF s1(2) False Cons.prems(3)]
    obtain pre e post sp where h: "evs = pre @ e # post" "run js opts pre s1 = Some sp"
      "\<not> aborted sp" "observes_completion e sp" by blast
    from h(1) have "ev # evs = (ev # pre) @ e # post" by simp
    moreover from s1(1) h(2) have "run js opts (ev # pre) s = Some sp" by simp
    ultimately show ?thesis using h(3,4) by blast
  qed
qed

lemmas sample_eval = loop_defs start_def initial_state_def sleep_def
  sample_js_def sample_run_opts_def one_pass_opts_def
  sample_JSON_parse_def sample_JSON_stringify_def dq_def
  builder_met_text_def builder_wants_text_def verifier_pass_text_def verifier_fail_text_def
  extractTaggedJson_def start_marker_def end_marker_def indexOf_def slice_def trim_def
  is_white_space_def nullish_def looksLikeRefactor_def toLowerCase_def toLowerCase_char_def
  REFACTOR_SIGNALS_def includes_string_def
  builder_none_def builder_plain_def builder_met_def builder_wants_def
  verifier_none_def verifier_plain_def verifier_pass_def verifier_fail_def
  refactorer_none_def refactorer_ran_def pass1_def stalled_def stalled_cycle_def

subsection \<open>Termination\<close>

text \<open>
  C2. A step raises Termination exactly when it resumes the Builder or the Verifier loop
  at its completion test and that loop finds \<open>builder.exitCriteriaMet\<close> true and
  \<open>verifier.verdict\<close> equal to \<open>"PASS"\<close>; the run starts with Termination unset, so
  whenever Termination is raised in a run, some step of the run made that observation
  with Termination still unset. Raising it
  is idempotent: a second \<open>abort()\<close> changes nothing. Once it is raised, every loop
  that comes to test its \<open>while\<close> condition (at the end of a pass or of a wait) leaves
  its loop, and however the run continues, Termination stays raised and the iteration
  counter keeps its value.
\<close>

theorem termination_raised_once:
  "(step js opts ev s = Some s1 \<longrightarrow> aborted s1 = (aborted s \<or> observes_completion ev s))
   \<and> \<not> aborted (start opts t0)
   \<and> aborted (abort s) \<and> abort (abort s) = abort s \<and> (aborted s \<longrightarrow> abort s = s)
   \<and> (aborted s \<and> checkpoint r ev s \<longrightarrow> (\<exists>s2. step js opts ev s = Some s2 \<and> loop_done r s2))
   \<and> (aborted s \<and> run js opts evs s = Some s3
        \<longrightarrow> aborted s3 \<and> iteration (state s3) = iteration (state s))
   \<and> (run js opts evs (start opts t0) = Some s4 \<and> aborted s4
        \<longrightarrow> (\<exists>pre ev' post sp. evs = pre @ ev' # post
               \<and> run js opts pre (start opts t0) = Some sp
               \<and> \<not> aborted sp \<and> observes_completion ev' sp))"
  using step_aborted[of js opts ev s s1] start_not_aborted[of opts t0] abort_aborted[of s]
    abort_idem[of s] abort_when_aborted[of s] checkpoint_exits[of s r ev js opts]
    run_aborted[of js opts evs s s3]
    run_raises_by_observation[of js opts evs "start opts t0" s4]
  by simp

theorem termination_raised_once_witness:
  "run sample_js sample_run_opts
       [Settle Builder (Fulfilled ''''), Settle Builder (Fulfilled builder_met_text),
        Settle Verifier (Fulfilled verifier_pass_text)] (start sample_run_opts 0)
     = Some (pass1 builder_met verifier_pass refactorer_none False False 0
               B_persist_report V_persist (R_sleep 1000))
   \<and> observes_completion (Settle Verifier (Fulfilled ''''))
        (pass1 builder_met verifier_pass refactorer_none False False 0
           B_persist_report V_persist (R_sleep 1000))
   \<and> step sample_js sample_run_opts (Settle Verifier (Fulfilled ''''))
        (pass1 builder_met verifier_pass refactorer_none False False 0
           B_persist_report V_persist (R_sleep 1000))
       = Some (pass1 builder_met verifier_pass refactorer_none True False 0
                 B_persist_report V_done R_woken)
   \<and> aborted (pass1 builder_met verifier_pass refactorer_none True False 0
                 B_persist_report V_done R_woken)
   \<and> checkpoint Builder (Settle Builder (Fulfilled ''''))
        (pass1 builder_met verifier_pass refactorer_none True False 0
                 B_persist_report V_done R_woken)
   \<and> (\<exists>s2. step sample_js sample_run_opts (Settle Builder (Fulfilled ''''))
              (pass1 builder_met verifier_pass refactorer_none True False 0
                 B_persist_report V_done R_woken) = Some s2
           \<and> loop_done Builder s2)
   \<and> run sample_js sample_run_opts
        [Settle Builder (Fulfilled ''''), Settle Refactorer (Fulfilled ''''), Tick 5000]
        (pass1 builder_met verifier_pass refactorer_none True False 0
                 B_persist_report V_done R_woken)
       = Some (pass1 builder_met verifier_pass refactorer_none True False 5000
                 B_done V_done R_done)
   \<and> aborted (pass1 builder_met verifier_pass refactorer_none True False 5000 B_done V_done R_done)
   \<and> iteration (state (pass1 builder_met verifier_pass refactorer_none True False 5000
                          B_done V_done R_done))
       = iteration (state (pass1 builder_met verifier_pass refactorer_none True False 0
                 B_persist_report V_done R_woken))"
proof -
  let ?s = "pass1 builder_met verifier_pass refactorer_none False False 0
               B_persist_report V_persist (R_sleep 1000)"
  let ?a = "pass1 builder_met verifier_pass refactorer_none True False 0
                 B_persist_report V_done R_woken"
  let ?e = "pass1 builder_met verifier_pass refactorer_none True False 5000 B_done V_done R_done"
  have r0: "run sample_js sample_run_opts
       [Settle Builder (Fulfilled ''''), Settle Builder (Fulfilled builder_met_text),
        Settle Verifier (Fulfilled verifier_pass_text)] (start sample_run_opts 0) = Some ?s"
    by (simp add: sample_eval)
  have o: "observes_completion (Settle Verifier (Fulfilled '''')) ?s"
    by (simp add: observes_completion_def completion_check_def complete_def sample_eval)
  have st: "step sample_js sample_run_opts (Settle Verifier (Fulfilled '''')) ?s = Some ?a"
    by (simp add: sample_eval)
  have c: "checkpoint Builder (Settle Builder (Fulfilled '''')) ?a"
    by (simp add: checkpoint_def sample_eval)
  have r1: "run sample_js sample_run_opts
        [Settle Builder (Fulfilled ''''), Settle Refactorer (Fulfilled ''''), Tick 5000] ?a = Some ?e"
    by (simp add: sample_eval)
  from termination_raised_once[where js = sample_js and opts = sample_run_opts
      and ev = "Settle Verifier (Fulfilled '''')" and s = ?s and ?s1.0 = ?a]
    st o
  have a: "aborted ?a" by simp
  from termination_raised_once[where js = sample_js and opts = sample_run_opts
      and ev = "Settle Builder (Fulfilled '''')" and s = ?a and r = Builder] a c
  have x: "\<exists>s2. step sample_js sample_run_opts (Settle Builder (Fulfilled '''')) ?a = Some s2
           \<and> loop_done Builder s2" by simp
  from termination_raised_once[where js = sample_js and opts = sample_run_opts and s = ?a
      and evs = "[Settle Builder (Fulfilled ''''), Settle Refactorer (Fulfilled ''''), Tick 5000]"
      and ?s3.0 = ?e] a r1
  have f: "aborted ?e \<and> iteration (state ?e) = iteration (state ?a)" by simp
  from r0 o st a c x r1 f show ?thesis by simp
qed

subsection \<open>A failing invocation\<close>

text \<open>
  C3 as stated fails: nothing in a loop catches the rejection of \<open>prompt\<close>, so the error
  leaves the loop and the loop never runs again. Here the Builder's first invocation
  fails; afterwards no event resumes the Builder loop.
\<close>

theorem failed_invocation_no_retry_counterexample:
  "run sample_js sample_run_opts [Settle Builder (Fulfilled ''''), Settle Builder Rejected]
       (start sample_run_opts 0)
     = Some (pass1 builder_none verifier_none refactorer_none False False 0
               B_failed V_prompt (R_sleep 1000))
   \<and> step sample_js sample_run_opts (Settle Builder (Fulfilled ''''))
        (pass1 builder_none verifier_none refactorer_none False False 0
               B_failed V_prompt (R_sleep 1000)) = None
   \<and> step sample_js sample_run_opts (Settle Builder Rejected)
        (pass1 builder_none verifier_none refactorer_none False False 0
               B_failed V_prompt (R_sleep 1000)) = None
   \<and> step sample_js sample_run_opts (Timer Builder)
        (pass1 builder_none verifier_none refactorer_none False False 0
               B_failed V_prompt (R_sleep 1000)) = None
   \<and> iteration (state (pass1 builder_none verifier_none refactorer_none False False 0
               B_failed V_prompt (R_sleep 1000))) < maxIterations sample_run_opts
   \<and> \<not> aborted (pass1 builder_none verifier_none refactorer_none False False 0
               B_failed V_prompt (R_sleep 1000))"
  by (simp add: sample_eval)

text \<open>
  C3, amended. When the role invocation of a loop fails, the shared state is left as it
  is, the stale \<open>lastReport\<close> included; no other loop is disturbed and Termination is not
  raised. The error ends the loop: its promise is rejected (only \<open>Promise.allSettled\<close> at the
  end of the run absorbs that), no event resumes it any more, and its sub-record of the
  shared state keeps its value for the rest of the run. The loop does not retry.
\<close>

theorem invocation_failure_ends_loop:
  "(awaiting_prompt r s \<longrightarrow>
      (\<exists>s1. step js opts (Settle r Rejected) s = Some s1 \<and> state s1 = state s
            \<and> aborted s1 = aborted s \<and> refactorTriggerRequested s1 = refactorTriggerRequested s
            \<and> now s1 = now s \<and> loop_failed r s1 \<and> other_loops_unchanged r s s1))
   \<and> (loop_failed r s \<longrightarrow>
        step js opts (Settle r out) s = None \<and> step js opts (Timer r) s = None)
   \<and> (loop_failed r s \<and> run js opts evs s = Some s2
        \<longrightarrow> loop_failed r s2 \<and> same_sub_record r s s2)"
  using failure_step[of r s js opts] failed_disabled(1)[of r s js opts out]
    failed_disabled(2)[of r s js opts] run_failed_preserved[of js opts evs s s2 r]
  by simp

theorem invocation_failure_ends_loop_witness:
  "awaiting_prompt Verifier (start sample_run_opts 0)
   \<and> step sample_js sample_run_opts (Settle Verifier Rejected) (start sample_run_opts 0)
       = Some (pass1 builder_none verifier_none refactorer_none False False 0
                 B_persist_iteration V_failed (R_sleep 1000))
   \<and> loop_failed Verifier (pass1 builder_none verifier_none refactorer_none False False 0
                 B_persist_iteration V_failed (R_sleep 1000))
   \<and> step sample_js sample_run_opts (Settle Verifier (Fulfilled verifier_pass_text))
        (pass1 builder_none verifier_none refactorer_none False False 0
                 B_persist_iteration V_failed (R_sleep 1000)) = None
   \<and> step sample_js sample_run_opts (Timer Verifier)
        (pass1 builder_none verifier_none refactorer_none False False 0
                 B_persist_iteration V_failed (R_sleep 1000)) = None
   \<and> run sample_js sample_run_opts
        [Settle Builder (Fulfilled ''''), Settle Builder (Fulfilled builder_met_text),
         Settle Builder (Fulfilled ''''), Tick 1000, Timer Refactorer]
        (pass1 builder_none verifier_none refactorer_none False False 0
                 B_persist_iteration V_failed (R_sleep 1000))
       = Some (pass1 builder_met verifier_none refactorer_none False False 1000
                 B_persist_iteration V_failed (R_sleep 2000)
               \<lparr>state := (state (pass1 builder_met verifier_none refactorer_none False False 1000
                 B_persist_iteration V_failed (R_sleep 2000)))\<lparr>iteration := 2\<rparr>\<rparr>)
   \<and> same_sub_record Verifier
        (pass1 builder_none verifier_none refactorer_none False False 0
                 B_persist_iteration V_failed (R_sleep 1000))
        (pass1 builder_met verifier_none refactorer_none False False 1000
                 B_persist_iteration V_failed (R_sleep 2000)
               \<lparr>state := (state (pass1 builder_met verifier_none refactorer_none False False 1000
                 B_persist_iteration V_failed (R_sleep 2000)))\<lparr>iteration := 2\<rparr>\<rparr>)"
proof -
  let ?f = "pass1 builder_none verifier_none refactorer_none False False 0
                 B_persist_iteration V_failed (R_sleep 1000)"
  let ?g = "pass1 builder_met verifier_none refactorer_none False False 1000
                 B_persist_iteration V_failed (R_sleep 2000)
               \<lparr>state := (state (pass1 builder_met verifier_none refactorer_none False False 1000
                 B_persist_iteration V_failed (R_sleep 2000)))\<lparr>iteration := 2\<rparr>\<rparr>"
  have a: "awaiting_prompt Verifier (start sample_run_opts 0)"
    by (simp add: sample_eval)
  have st: "step sample_js sample_run_opts (Settle Verifier Rejected) (start sample_run_opts 0)
       = Some ?f"
    by (simp add: sample_eval)
  have lf: "loop_failed Verifier ?f" by (simp add: sample_eval)
  have r: "run sample_js sample_run_opts
        [Settle Builder (Fulfilled ''''), Settle Builder (Fulfilled builder_met_text),
         Settle Builder (Fulfilled ''''), Tick 1000, Timer Refactorer] ?f = Some ?g"
    by (simp add: sample_eval)
  from invocation_failure_ends_loop[where r = Verifier and s = ?f and js = sample_js
      and opts = sample_run_opts and out = "Fulfilled verifier_pass_text"] lf
  have d: "step sample_js sample_run_opts (Settle Verifier (Fulfilled verifier_pass_text)) ?f = None"
    and t: "step sample_js sample_run_opts (Timer Verifier) ?f = None" by simp_all
  from invocation_failure_ends_loop[where r = Verifier and s = ?f and js = sample_js
      and opts = sample_run_opts and ?s2.0 = ?g
      and evs = "[Settle Builder (Fulfilled ''''), Settle Builder (Fulfilled builder_met_text),
         Settle Builder (Fulfilled ''''), Tick 1000, Timer Refactorer]"] lf r
  have k: "same_sub_record Verifier ?f ?g" by simp
  from a st lf d t r k show ?thesis by simp
qed

subsection \<open>The Refactorer and the trigger\<close>

text \<open>
  C4. Whenever the Refactorer loop is resumed at the top of its loop with Termination
  unset and the trigger set, it clears the trigger. If \<open>verifier.verdict\<close> is \<open>"PASS"\<close> at
  that moment it leaves the shared state as it is (\<open>ranCount\<close>, \<open>lastRanAt\<close> unchanged),
  issues no invocation and goes back to waiting. Otherwise it issues one invocation;
  until the response arrives nothing changes the \<open>refactorer\<close> sub-record; when the
  response arrives, \<open>ranCount\<close> grows by one, \<open>lastRanAt\<close> is stamped with the time, and
  the rest of the shared state (\<open>builder\<close>, \<open>verifier\<close>, \<open>iteration\<close>, \<open>startedAt\<close>) and the
  other loops are left as they are.
\<close>

theorem refactorer_consumes_trigger:
  "(checkpoint Refactorer ev s \<longrightarrow> step js opts ev s = Some (refactorer_loop_top s))
   \<and> (\<not> aborted s \<and> refactorTriggerRequested s \<and> verdict (verifier (state s)) = JStr ''PASS''
        \<longrightarrow> refactorer_loop_top s
              = s\<lparr>refactorTriggerRequested := False, refactorerLoop := R_sleep (now s + 1000)\<rparr>)
   \<and> (\<not> aborted s \<and> refactorTriggerRequested s \<and> verdict (verifier (state s)) \<noteq> JStr ''PASS''
        \<longrightarrow> refactorer_loop_top s
              = s\<lparr>refactorTriggerRequested := False, refactorerLoop := R_prompt\<rparr>)
   \<and> (refactorerLoop s = R_prompt
        \<and> list_all (\<lambda>ev. event_role ev \<noteq> Some Refactorer) evs \<and> run js opts evs s = Some s1
        \<longrightarrow> refactorerLoop s1 = R_prompt \<and> refactorer (state s1) = refactorer (state s))
   \<and> (refactorerLoop s = R_prompt \<longrightarrow>
        (\<exists>s2. step js opts (Settle Refactorer (Fulfilled response)) s = Some s2
           \<and> ranCount (refactorer (state s2)) = ranCount (refactorer (state s)) + 1
           \<and> lastRanAt (refactorer (state s2)) = Some (now s)
           \<and> builder (state s2) = builder (state s) \<and> verifier (state s2) = verifier (state s)
           \<and> iteration (state s2) = iteration (state s)
           \<and> startedAt (state s2) = startedAt (state s)
           \<and> aborted s2 = aborted s
           \<and> refactorTriggerRequested s2 = refactorTriggerRequested s
           \<and> refactorerLoop s2 = R_persist \<and> other_loops_unchanged Refactorer s s2))"
proof -
  have 1: "checkpoint Refactorer ev s \<longrightarrow> step js opts ev s = Some (refactorer_loop_top s)"
    by (cases "(js, opts, ev, s)" rule: step.cases)
       (auto simp: checkpoint_def split: pc_splits)
  show ?thesis
    using 1 consume_trigger[of s] run_other_keeps_prompt[of js opts evs s s1]
      refactorer_response[of s js opts response]
    by (simp add: sleep_def)
qed

theorem refactorer_consumes_trigger_witness:
  "checkpoint Refactorer (Timer Refactorer)
     (pass1 builder_wants verifier_pass refactorer_none False True 1000
        B_persist_report (V_sleep 90000) (R_sleep 1000))
   \<and> step sample_js sample_run_opts (Timer Refactorer)
       (pass1 builder_wants verifier_pass refactorer_none False True 1000
          B_persist_report (V_sleep 90000) (R_sleep 1000))
     = Some (pass1 builder_wants verifier_pass refactorer_none False False 1000
               B_persist_report (V_sleep 90000) (R_sleep 2000))
   \<and> step sample_js sample_run_opts (Timer Refactorer)
       (pass1 builder_wants verifier_fail refactorer_none False True 1000
          B_persist_report (V_sleep 90000) (R_sleep 1000))
     = Some (pass1 builder_wants verifier_fail refactorer_none False False 1000
               B_persist_report (V_sleep 90000) R_prompt)
   \<and> run sample_js sample_run_opts [Tick 5, Settle Builder (Fulfilled '''')]
       (pass1 builder_wants verifier_fail refactorer_none False False 995
               B_persist_report (V_sleep 90000) R_prompt)
     = Some ((pass1 builder_wants verifier_fail refactorer_none False False 1000
               B_persist_iteration (V_sleep 90000) R_prompt)
             \<lparr>state := (state (pass1 builder_wants verifier_fail refactorer_none False False 1000
               B_persist_iteration (V_sleep 90000) R_prompt))\<lparr>iteration := 2\<rparr>\<rparr>)
   \<and> refactorer (state ((pass1 builder_wants verifier_fail refactorer_none False False 1000
               B_persist_iteration (V_sleep 90000) R_prompt)
             \<lparr>state := (state (pass1 builder_wants verifier_fail refactorer_none False False 1000
               B_persist_iteration (V_sleep 90000) R_prompt))\<lparr>iteration := 2\<rparr>\<rparr>))
       = refactorer_none
   \<and> step sample_js sample_run_opts (Settle Refactorer (Fulfilled ''tidied''))
       (pass1 builder_wants verifier_fail refactorer_none False False 1000
               B_persist_report (V_sleep 90000) R_prompt)
     = Some (pass1 builder_wants verifier_fail refactorer_ran False False 1000
               B_persist_report (V_sleep 90000) R_persist)
   \<and> ranCount refactorer_ran = ranCount refactorer_none + 1"
proof -
  let ?p = "pass1 builder_wants verifier_pass refactorer_none False True 1000
        B_persist_report (V_sleep 90000) (R_sleep 1000)"
  let ?f = "pass1 builder_wants verifier_fail refactorer_none False True 1000
          B_persist_report (V_sleep 90000) (R_sleep 1000)"
  let ?q = "pass1 builder_wants verifier_fail refactorer_none False False 995
               B_persist_report (V_sleep 90000) R_prompt"
  let ?q' = "(pass1 builder_wants verifier_fail refactorer_none False False 1000
               B_persist_iteration (V_sleep 90000) R_prompt)
             \<lparr>state := (state (pass1 builder_wants verifier_fail refactorer_none False False 1000
               B_persist_iteration (V_sleep 90000) R_prompt))\<lparr>iteration := 2\<rparr>\<rparr>"
  let ?i = "pass1 builder_wants verifier_fail refactorer_none False False 1000
               B_persist_report (V_sleep 90000) R_prompt"
  have cp: "checkpoint Refactorer (Timer Refactorer) ?p"
    and cf: "checkpoint Refactorer (Timer Refactorer) ?f"
    by (simp_all add: checkpoint_def pass1_def)
  have hp: "\<not> aborted ?p \<and> refactorTriggerRequested ?p
      \<and> verdict (verifier (state ?p)) = JStr ''PASS''"
    and hf: "\<not> aborted ?f \<and> refactorTriggerRequested ?f
      \<and> verdict (verifier (state ?f)) \<noteq> JStr ''PASS''"
    by (simp_all add: pass1_def verifier_pass_def verifier_fail_def)
  from refactorer_consumes_trigger[where ev = "Timer Refactorer" and s = ?p and js = sample_js
      and opts = sample_run_opts] cp hp
  have 1: "step sample_js sample_run_opts (Timer Refactorer) ?p
     = Some (pass1 builder_wants verifier_pass refactorer_none False False 1000
               B_persist_report (V_sleep 90000) (R_sleep 2000))"
    by (simp add: pass1_def)
  from refactorer_consumes_trigger[where ev = "Timer Refactorer" and s = ?f and js = sample_js
      and opts = sample_run_opts] cf hf
  have 2: "step sample_js sample_run_opts (Timer Refactorer) ?f
     = Some (pass1 builder_wants verifier_fail refactorer_none False False 1000
               B_persist_report (V_sleep 90000) R_prompt)"
    by (simp add: pass1_def)
  have r: "run sample_js sample_run_opts [Tick 5, Settle Builder (Fulfilled '''')] ?q = Some ?q'"
    by (simp add: sample_eval)
  have l: "list_all (\<lambda>ev. event_role ev \<noteq> Some Refactorer) [Tick 5, Settle Builder (Fulfilled '''')]"
    by simp
  have pq: "refactorerLoop ?q = R_prompt" and pi: "refactorerLoop ?i = R_prompt"
    by (simp_all add: pass1_def)
  from refactorer_consumes_trigger[where s = ?q and js = sample_js and opts = sample_run_opts
      and evs = "[Tick 5, Settle Builder (Fulfilled '''')]" and ?s1.0 = ?q'] pq l r
  have 3: "refactorer (state ?q') = refactorer_none"
    by (simp add: pass1_def)
  have 4: "step sample_js sample_run_opts (Settle Refactorer (Fulfilled ''tidied'')) ?i
     = Some (pass1 builder_wants verifier_fail refactorer_ran False False 1000
               B_persist_report (V_sleep 90000) R_persist)"
    by (simp add: sample_eval)
  have 5: "ranCount refactorer_ran = ranCount refactorer_none + 1"
    by (simp add: refactorer_ran_def refactorer_none_def)
  from cp 1 2 r 3 4 5 show ?thesis by simp
qed

subsection \<open>The iteration counter\<close>




subsection \<open>A sleep started after Termination\<close>

text \<open>
  C9. The abort listener of a \<open>sleep\<close> is called only when the signal goes from unset to
  set: \<open>abort()\<close> wakes the sleeps pending at that moment and does nothing when the signal
  is already set. A Verifier pass that ends after Termination was raised, without itself
  finding the completion condition, starts a \<open>sleep\<close> of the configured interval; that
  \<open>sleep\<close> is still pending in every later state whose clock is before its due time (no
  timer event, no resumption and no \<open>abort()\<close> ends it earlier), so the loop leaves only
  after the full interval.
\<close>

theorem late_sleep_runs_full_interval:
  "(aborted s \<and> verifierLoop s = V_persist \<and> \<not> complete s \<longrightarrow>
      (\<exists>s1. step js opts (Settle Verifier (Fulfilled v)) s = Some s1 \<and> aborted s1
            \<and> now s1 = now s
            \<and> verifierLoop s1 = V_sleep (now s + verifierIntervalSec opts * 1000)))
   \<and> (aborted s \<and> verifierLoop s = V_sleep d \<and> run js opts evs s = Some s2 \<and> now s2 < d
        \<longrightarrow> verifierLoop s2 = V_sleep d)
   \<and> (aborted s \<and> verifierLoop s = V_sleep d \<and> now s < d
        \<longrightarrow> step js opts (Timer Verifier) s = None
            \<and> step js opts (Settle Verifier out) s = None \<and> abort s = s)
   \<and> (\<not> aborted s \<and> verifierLoop s = V_sleep d \<longrightarrow> verifierLoop (abort s) = V_woken)"
proof -
  have 3: "aborted s \<and> verifierLoop s = V_sleep d \<and> now s < d
        \<longrightarrow> step js opts (Timer Verifier) s = None
            \<and> step js opts (Settle Verifier out) s = None \<and> abort s = s"
    by (cases out) (simp_all add: abort_def)
  show ?thesis
    using 3 late_sleep_starts[of s js opts v] run_late_sleep[of js opts evs s s2 d]
      abort_wakes(1)[of s d]
    by auto
qed

theorem late_sleep_runs_full_interval_witness:
  "run sample_js sample_run_opts
     [Settle Verifier (Fulfilled verifier_pass_text), Settle Verifier (Fulfilled ''''),
      Tick 90000, Timer Verifier,
      Settle Builder (Fulfilled ''''), Settle Builder (Fulfilled builder_met_text),
      Settle Builder (Fulfilled ''''),
      Settle Verifier (Fulfilled verifier_fail_text)]
     (start sample_run_opts 0)
   = Some (pass1 builder_met verifier_fail refactorer_none True False 90000
             B_done V_persist R_woken)
   \<and> \<not> complete (pass1 builder_met verifier_fail refactorer_none True False 90000
             B_done V_persist R_woken)
   \<and> step sample_js sample_run_opts (Settle Verifier (Fulfilled ''''))
       (pass1 builder_met verifier_fail refactorer_none True False 90000
             B_done V_persist R_woken)
     = Some (pass1 builder_met verifier_fail refactorer_none True False 90000
             B_done (V_sleep 180000) R_woken)
   \<and> run sample_js sample_run_opts [Settle Refactorer (Fulfilled ''''), Tick 89999]
       (pass1 builder_met verifier_fail refactorer_none True False 90000
             B_done (V_sleep 180000) R_woken)
     = Some (pass1 builder_met verifier_fail refactorer_none True False 179999
             B_done (V_sleep 180000) R_done)
   \<and> verifierLoop (pass1 builder_met verifier_fail refactorer_none True False 179999
             B_done (V_sleep 180000) R_done) = V_sleep 180000
   \<and> step sample_js sample_run_opts (Timer Verifier)
       (pass1 builder_met verifier_fail refactorer_none True False 179999
             B_done (V_sleep 180000) R_done) = None
   \<and> run sample_js sample_run_opts [Tick 1, Timer Verifier]
       (pass1 builder_met verifier_fail refactorer_none True False 179999
             B_done (V_sleep 180000) R_done)
     = Some (pass1 builder_met verifier_fail refactorer_none True False 180000
             B_done V_done R_done)
   \<and> verifierLoop (abort (pass1 builder_met verifier_pass refactorer_none False False 0
             B_persist_report (V_sleep 90000) (R_sleep 1000))) = V_woken"
proof -
  let ?p = "pass1 builder_met verifier_fail refactorer_none True False 90000
             B_done V_persist R_woken"
  let ?z = "pass1 builder_met verifier_fail refactorer_none True False 90000
             B_done (V_sleep 180000) R_woken"
  let ?y = "pass1 builder_met verifier_fail refactorer_none True False 179999
             B_done (V_sleep 180000) R_done"
  let ?w = "pass1 builder_met verifier_pass refactorer_none False False 0
             B_persist_report (V_sleep 90000) (R_sleep 1000)"
  have r0: "run sample_js sample_run_opts
     [Settle Verifier (Fulfilled verifier_pass_text), Settle Verifier (Fulfilled ''''),
      Tick 90000, Timer Verifier,
      Settle Builder (Fulfilled ''''), Settle Builder (Fulfilled builder_met_text),
      Settle Builder (Fulfilled ''''),
      Settle Verifier (Fulfilled verifier_fail_text)]
     (start sample_run_opts 0) = Some ?p"
    by (simp add: sample_eval)
  have hp: "aborted ?p \<and> verifierLoop ?p = V_persist \<and> \<not> complete ?p"
    by (simp add: complete_def pass1_def verifier_fail_def)
  have st: "step sample_js sample_run_opts (Settle Verifier (Fulfilled '''')) ?p = Some ?z"
    by (simp add: sample_eval)
  have hz: "aborted ?z \<and> verifierLoop ?z = V_sleep 180000" by (simp add: pass1_def)
  have r1: "run sample_js sample_run_opts [Settle Refactorer (Fulfilled ''''), Tick 89999] ?z
     = Some ?y"
    by (simp add: sample_eval)
  have ny: "now ?y < 180000" by (simp add: pass1_def)
  from late_sleep_runs_full_interval[where js = sample_js and opts = sample_run_opts
      and s = ?z and d = 180000 and ?s2.0 = ?y
      and evs = "[Settle Refactorer (Fulfilled ''''), Tick 89999]"] hz r1 ny
  have k: "verifierLoop ?y = V_sleep 180000" by blast
  have hy: "aborted ?y \<and> verifierLoop ?y = V_sleep 180000 \<and> now ?y < 180000"
    by (simp add: pass1_def)
  from late_sleep_runs_full_interval[where js = sample_js and opts = sample_run_opts
      and s = ?y and d = 180000] hy
  have t: "step sample_js sample_run_opts (Timer Verifier) ?y = None" by blast
  have r2: "run sample_js sample_run_opts [Tick 1, Timer Verifier] ?y
     = Some (pass1 builder_met verifier_fail refactorer_none True False 180000
             B_done V_done R_done)"
    by (simp add: sample_eval)
  have hw: "\<not> aborted ?w \<and> verifierLoop ?w = V_sleep 90000" by (simp add: pass1_def)
  from late_sleep_runs_full_interval[where s = ?w and d = 90000] hw
  have w: "verifierLoop (abort ?w) = V_woken" by blast
  from r0 hp st r1 k t r2 w show ?thesis by simp
qed

section \<open>Properties of the lock\<close>

lemma run_mutex_Cons:
  assumes "mutex_run (ev # evs) m = Some m'"
  obtains m1 where "mutex_step ev m = Some m1" and "mutex_run evs m1 = Some m'"
  using assms by (auto split: option.splits)

lemma concat_map_nth_split:
  assumes "k < length xs"
  shows "concat (map f xs) = concat (map f (take k xs)) @ f (xs ! k) @ concat (map f (drop (Suc k) xs))"
proof -
  have "xs = take k xs @ xs ! k # drop (Suc k) xs" using assms by (rule id_take_nth_drop)
  then have "concat (map f xs) = concat (map f (take k xs @ xs ! k # drop (Suc k) xs))" by simp
  then show ?thesis by simp
qed

lemma concat_map_update:
  assumes "k < length xs"
  shows "concat (map f (xs[k := y]))
           = concat (map f (take k xs)) @ f y @ concat (map f (drop (Suc k) xs))"
  using assms by (simp add: upd_conv_take_nth_drop)

lemma inv_initial: "mutex_inv SimpleMutex"
  by (simp add: mutex_inv_def SimpleMutex_def)

lemma inv_call:
  assumes "mutex_inv m"
  shows "mutex_inv (runExclusive f m)"
proof -
  let ?n = "length (lock_calls m)"
  let ?c = "\<lparr>call_prev = lock_p m, call_release = length (lock_promises m), call_fn = f,
            call_progress = Awaiting_prev\<rparr>"
  from assms have len: "length (lock_promises m) = Suc ?n" and pm: "lock_p m = ?n"
    and p0: "lock_promises m ! 0"
    and each: "\<And>i. i < ?n \<Longrightarrow>
            call_prev (lock_calls m ! i) = i \<and> call_release (lock_calls m ! i) = Suc i
            \<and> lock_promises m ! Suc i = ended (lock_calls m ! i)
            \<and> (started (lock_calls m ! i) \<longrightarrow> (\<forall>j<i. ended (lock_calls m ! j)))
            \<and> (\<forall>rest. call_progress (lock_calls m ! i) = In_fn rest
                  \<longrightarrow> suffix rest (op_effects (call_fn (lock_calls m ! i))))"
    and lg: "lock_log m = concat (map performed (lock_calls m))"
    by (simp_all add: mutex_inv_def)
  have new: "\<not> started ?c" "\<not> ended ?c" "performed ?c = []"
    by (simp_all add: started_def ended_def performed_def)
  have "\<And>i. i < Suc ?n \<Longrightarrow>
            call_prev ((lock_calls m @ [?c]) ! i) = i \<and> call_release ((lock_calls m @ [?c]) ! i) = Suc i
            \<and> (lock_promises m @ [False]) ! Suc i = ended ((lock_calls m @ [?c]) ! i)
            \<and> (started ((lock_calls m @ [?c]) ! i) \<longrightarrow> (\<forall>j<i. ended ((lock_calls m @ [?c]) ! j)))
            \<and> (\<forall>rest. call_progress ((lock_calls m @ [?c]) ! i) = In_fn rest
                  \<longrightarrow> suffix rest (op_effects (call_fn ((lock_calls m @ [?c]) ! i))))"
  proof -
    fix i assume i: "i < Suc ?n"
    show "call_prev ((lock_calls m @ [?c]) ! i) = i \<and> call_release ((lock_calls m @ [?c]) ! i) = Suc i
            \<and> (lock_promises m @ [False]) ! Suc i = ended ((lock_calls m @ [?c]) ! i)
            \<and> (started ((lock_calls m @ [?c]) ! i) \<longrightarrow> (\<forall>j<i. ended ((lock_calls m @ [?c]) ! j)))
            \<and> (\<forall>rest. call_progress ((lock_calls m @ [?c]) ! i) = In_fn rest
                  \<longrightarrow> suffix rest (op_effects (call_fn ((lock_calls m @ [?c]) ! i))))"
    proof (cases "i < ?n")
      case True
      then have "\<forall>j<i. (lock_calls m @ [?c]) ! j = lock_calls m ! j" by (simp add: nth_append)
      with True each[OF True] len show ?thesis by (simp add: nth_append)
    next
      case False
      with i have "i = ?n" by simp
      with len pm new show ?thesis by (simp add: nth_append started_def ended_def)
    qed
  qed
  with len pm p0 lg new show ?thesis
    by (simp add: mutex_inv_def runExclusive_def Let_def nth_append)
qed


lemma performed_not_started: "\<not> started c \<Longrightarrow> performed c = []"
  by (simp add: started_def performed_def)

lemma ended_started: "ended c \<Longrightarrow> started c"
  by (auto simp: started_def ended_def)

lemma inv_later_not_started:
  assumes "mutex_inv m" and "k < i" and "i < length (lock_calls m)"
    and "\<not> ended (lock_calls m ! k)"
  shows "\<not> started (lock_calls m ! i)"
proof
  assume "started (lock_calls m ! i)"
  with assms(1,3) have "\<forall>j<i. ended (lock_calls m ! j)" by (simp add: mutex_inv_def)
  with assms(2,4) show False by simp
qed

lemma inv_rest_silent:
  assumes "mutex_inv m" and "k < length (lock_calls m)" and "\<not> ended (lock_calls m ! k)"
  shows "concat (map performed (drop (Suc k) (lock_calls m))) = []"
proof -
  have "performed c = []" if "c \<in> set (drop (Suc k) (lock_calls m))" for c
  proof -
    from that obtain j where j: "j < length (drop (Suc k) (lock_calls m))"
      "c = drop (Suc k) (lock_calls m) ! j" by (auto simp: in_set_conv_nth)
    then have "c = lock_calls m ! (Suc k + j)" and "Suc k + j < length (lock_calls m)" by auto
    with inv_later_not_started[OF assms(1) _ _ assms(3), of "Suc k + j"]
    show ?thesis by (simp add: performed_not_started)
  qed
  then show ?thesis by simp
qed

lemma inv_update:
  assumes inv: "mutex_inv m" and k: "k < length (lock_calls m)"
    and c': "c' = (lock_calls m ! k)\<lparr>call_progress := X\<rparr>"
    and pr: "pr' = (if ended c' then (lock_promises m)[Suc k := True] else lock_promises m)"
    and pre: "\<forall>j<k. ended (lock_calls m ! j)"
    and ne: "\<not> ended (lock_calls m ! k)"
    and suf: "\<forall>rest. X = In_fn rest \<longrightarrow> suffix rest (op_effects (call_fn (lock_calls m ! k)))"
    and lg: "lg' = lock_log m @ delta"
    and perf: "performed c' = performed (lock_calls m ! k) @ delta"
  shows "mutex_inv (m\<lparr>lock_promises := pr', lock_calls := (lock_calls m)[k := c'], lock_log := lg'\<rparr>)"
proof -
  let ?cs = "lock_calls m" and ?cs' = "(lock_calls m)[k := c']"
  let ?n = "length (lock_calls m)"
  from inv have len: "length (lock_promises m) = Suc ?n" and pm: "lock_p m = ?n"
    and p0: "lock_promises m ! 0"
    and each: "\<And>i. i < ?n \<Longrightarrow>
            call_prev (?cs ! i) = i \<and> call_release (?cs ! i) = Suc i
            \<and> lock_promises m ! Suc i = ended (?cs ! i)
            \<and> (started (?cs ! i) \<longrightarrow> (\<forall>j<i. ended (?cs ! j)))
            \<and> (\<forall>rest. call_progress (?cs ! i) = In_fn rest
                  \<longrightarrow> suffix rest (op_effects (call_fn (?cs ! i))))"
    and lgm: "lock_log m = concat (map performed ?cs)"
    by (simp_all add: mutex_inv_def)
  have lpr: "length pr' = Suc ?n" using pr len by simp
  have pr0: "pr' ! 0" using pr p0 by simp
  have fields: "call_prev c' = k" "call_release c' = Suc k" "call_fn c' = call_fn (?cs ! k)"
    "call_progress c' = X"
    using c' each[OF k] by simp_all
  have prk: "pr' ! Suc k = ended c'"
  proof (cases "ended c'")
    case True
    with pr len k show ?thesis by simp
  next
    case False
    with pr each[OF k] ne show ?thesis by simp
  qed
  have pri: "pr' ! Suc i = lock_promises m ! Suc i" if "i \<noteq> k" for i
    using pr that by simp
  have E: "call_prev (?cs' ! i) = i \<and> call_release (?cs' ! i) = Suc i
            \<and> pr' ! Suc i = ended (?cs' ! i)
            \<and> (started (?cs' ! i) \<longrightarrow> (\<forall>j<i. ended (?cs' ! j)))
            \<and> (\<forall>rest. call_progress (?cs' ! i) = In_fn rest
                  \<longrightarrow> suffix rest (op_effects (call_fn (?cs' ! i))))" if i: "i < ?n" for i
  proof (cases "i = k")
    case True
    have "\<forall>j<k. ended (?cs' ! j)" using pre by simp
    with True k fields prk suf show ?thesis by simp
  next
    case False
    then have same: "?cs' ! i = ?cs ! i" by simp
    have "\<forall>j<i. ended (?cs' ! j)" if st: "started (?cs ! i)"
    proof (intro allI impI)
      fix j assume j: "j < i"
      from each[OF i] st have all: "\<forall>j<i. ended (?cs ! j)" by simp
      show "ended (?cs' ! j)"
      proof (cases "j = k")
        case True
        with all j ne show ?thesis by simp
      next
        case False
        with all j show ?thesis by simp
      qed
    qed
    with same each[OF i] pri[OF False] show ?thesis by simp
  qed
  have silent: "concat (map performed (drop (Suc k) ?cs)) = []"
    by (rule inv_rest_silent[OF inv k ne])
  have "concat (map performed ?cs')
          = concat (map performed (take k ?cs)) @ performed c' @ concat (map performed (drop (Suc k) ?cs))"
    by (rule concat_map_update[OF k])
  also have "\<dots> = concat (map performed (take k ?cs)) @ performed (?cs ! k) @ delta"
    using silent perf by simp
  also have "\<dots> = concat (map performed ?cs) @ delta"
    using concat_map_nth_split[OF k, of performed] silent by simp
  finally have L: "lg' = concat (map performed ?cs')" using lg lgm by simp
  from lpr pm pr0 E L show ?thesis by (simp add: mutex_inv_def)
qed


lemma inv_resolved_prev:
  assumes inv: "mutex_inv m" and k: "k < length (lock_calls m)"
  shows "resolved m (call_prev (lock_calls m ! k)) \<longleftrightarrow> (\<forall>j<k. ended (lock_calls m ! j))"
proof -
  from inv k have pk: "call_prev (lock_calls m ! k) = k"
    and len: "length (lock_promises m) = Suc (length (lock_calls m))"
    and p0: "lock_promises m ! 0"
    by (simp_all add: mutex_inv_def)
  show ?thesis
  proof (cases k)
    case 0
    with pk len p0 show ?thesis by (simp add: resolved_def)
  next
    case (Suc k')
    with k have k': "k' < length (lock_calls m)" by simp
    with inv have a: "lock_promises m ! Suc k' = ended (lock_calls m ! k')"
      and b: "started (lock_calls m ! k') \<longrightarrow> (\<forall>j<k'. ended (lock_calls m ! j))"
      by (simp_all add: mutex_inv_def)
    have "ended (lock_calls m ! k') \<longleftrightarrow> (\<forall>j<Suc k'. ended (lock_calls m ! j))"
      using b ended_started by (auto simp: less_Suc_eq)
    with a pk len k Suc show ?thesis by (simp add: resolved_def)
  qed
qed

lemma suffix_take_snoc:
  assumes "suffix (e # es) xs"
  shows "take (length xs - length es) xs = take (length xs - length (e # es)) xs @ [e]"
proof -
  from assms obtain pre where "xs = pre @ e # es" by (auto simp: suffix_def)
  then show ?thesis by simp
qed

lemma inv_resume:
  assumes inv: "mutex_inv m" and r: "resume k m = Some m'"
  shows "mutex_inv m'"
proof -
  from r have k: "k < length (lock_calls m)" by (auto simp: resume_def split: if_splits)
  let ?c = "lock_calls m ! k"
  from inv k have st: "started ?c \<longrightarrow> (\<forall>j<k. ended (lock_calls m ! j))"
    and sf: "\<forall>rest. call_progress ?c = In_fn rest \<longrightarrow> suffix rest (op_effects (call_fn ?c))"
    by (simp_all add: mutex_inv_def)
  show ?thesis
  proof (cases "call_progress ?c")
    case Awaiting_prev
    with r k have res: "resolved m (call_prev ?c)"
      and m': "m' = m\<lparr>lock_calls := (lock_calls m)[k := ?c\<lparr>call_progress := In_fn (op_effects (call_fn ?c))\<rparr>]\<rparr>"
      by (auto simp: resume_def Let_def split: if_splits)
    from res have pre: "\<forall>j<k. ended (lock_calls m ! j)"
      using inv_resolved_prev[OF inv k] by simp
    have "mutex_inv (m\<lparr>lock_promises := lock_promises m,
        lock_calls := (lock_calls m)[k := ?c\<lparr>call_progress := In_fn (op_effects (call_fn ?c))\<rparr>],
        lock_log := lock_log m\<rparr>)"
      by (rule inv_update[OF inv k refl _ pre, where delta = "[]"])
         (simp_all add: Awaiting_prev ended_def performed_def)
    with m' show ?thesis by simp
  next
    case (In_fn rest)
    then have stc: "started ?c" and ne: "\<not> ended ?c" by (simp_all add: started_def ended_def)
    with st have pre: "\<forall>j<k. ended (lock_calls m ! j)" by simp
    show ?thesis
    proof (cases rest)
      case Nil
      with In_fn r k have m': "m' = m\<lparr>lock_promises := (lock_promises m)[call_release ?c := True],
          lock_calls := (lock_calls m)[k := ?c\<lparr>call_progress :=
                                   (if op_throws (call_fn ?c) then Thrown else Returned)\<rparr>]\<rparr>"
        by (simp add: resume_def Let_def)
      from inv k have rel: "call_release ?c = Suc k" by (simp add: mutex_inv_def)
      have "mutex_inv (m\<lparr>lock_promises := (lock_promises m)[Suc k := True],
          lock_calls := (lock_calls m)[k := ?c\<lparr>call_progress :=
                                   (if op_throws (call_fn ?c) then Thrown else Returned)\<rparr>],
          lock_log := lock_log m\<rparr>)"
        by (rule inv_update[OF inv k refl _ pre ne, where delta = "[]"])
           (simp_all add: In_fn Nil ended_def performed_def)
      with m' rel show ?thesis by simp
    next
      case (Cons e es)
      with In_fn r k have m': "m' = m\<lparr>lock_calls := (lock_calls m)[k := ?c\<lparr>call_progress := In_fn es\<rparr>],
                        lock_log := lock_log m @ [e]\<rparr>"
        by (simp add: resume_def Let_def)
      from sf In_fn Cons have suf: "suffix (e # es) (op_effects (call_fn ?c))" by simp
      then have suf': "suffix es (op_effects (call_fn ?c))" by (rule suffix_ConsD)
      have "mutex_inv (m\<lparr>lock_promises := lock_promises m,
          lock_calls := (lock_calls m)[k := ?c\<lparr>call_progress := In_fn es\<rparr>],
          lock_log := lock_log m @ [e]\<rparr>)"
        by (rule inv_update[OF inv k refl _ pre ne, where delta = "[e]"])
           (simp_all add: In_fn Cons ended_def performed_def suf' suffix_take_snoc[OF suf])
      with m' show ?thesis by simp
    qed
  next
    case Returned
    with r k show ?thesis by (simp add: resume_def Let_def)
  next
    case Thrown
    with r k show ?thesis by (simp add: resume_def Let_def)
  qed
qed

lemma inv_step:
  assumes "mutex_inv m" and "mutex_step ev m = Some m'"
  shows "mutex_inv m'"
  using assms by (cases ev) (auto intro: inv_call inv_resume)

lemma inv_run:
  assumes "mutex_run evs m = Some m'" and "mutex_inv m"
  shows "mutex_inv m'"
  using assms
proof (induction evs arbitrary: m)
  case Nil
  then show ?case by simp
next
  case (Cons ev evs)
  from Cons.prems(1) obtain m1 where m1: "mutex_step ev m = Some m1" "mutex_run evs m1 = Some m'"
    by (rule run_mutex_Cons)
  from inv_step[OF Cons.prems(2) m1(1)] Cons.IH[OF m1(2)] show ?case by simp
qed

lemma resume_fns:
  assumes "resume k m = Some m'"
  shows "map call_fn (lock_calls m') = map call_fn (lock_calls m)"
proof -
  from assms have k: "k < length (lock_calls m)" by (auto simp: resume_def split: if_splits)
  have "map call_fn ((lock_calls m)[k := (lock_calls m ! k)\<lparr>call_progress := X\<rparr>])
          = map call_fn (lock_calls m)" for X
    by (simp add: map_update list_update_same_conv k)
  with assms k show ?thesis
    by (auto simp: resume_def Let_def split: if_splits progress.splits list.splits)
qed

lemma run_fns:
  assumes "mutex_run evs m = Some m'"
  shows "map call_fn (lock_calls m') = map call_fn (lock_calls m) @ submitted evs"
  using assms
proof (induction evs arbitrary: m)
  case Nil
  then show ?case by simp
next
  case (Cons ev evs)
  from Cons.prems(1) obtain m1 where m1: "mutex_step ev m = Some m1" "mutex_run evs m1 = Some m'"
    by (rule run_mutex_Cons)
  show ?case
  proof (cases ev)
    case (Call f)
    with m1(1) have "map call_fn (lock_calls m1) = map call_fn (lock_calls m) @ [f]"
      by (auto simp: runExclusive_def Let_def)
    with Cons.IH[OF m1(2)] Call show ?thesis by simp
  next
    case (Resume k)
    with m1(1) have "map call_fn (lock_calls m1) = map call_fn (lock_calls m)"
      by (simp add: resume_fns)
    with Cons.IH[OF m1(2)] Resume show ?thesis by simp
  qed
qed

lemma serial_prefix:
  assumes "\<forall>i<length cs. started (cs ! i) \<longrightarrow> (\<forall>j<i. ended (cs ! j))"
    and "\<forall>c\<in>set cs. ended c \<longrightarrow> performed c = op_effects (call_fn c)"
  shows "prefix (concat (map performed cs)) (concat (map op_effects (map call_fn cs)))"
  using assms
proof (induction cs)
  case Nil
  then show ?case by simp
next
  case (Cons c cs)
  have tl: "\<forall>i<length cs. started (cs ! i) \<longrightarrow> (\<forall>j<i. ended (cs ! j))"
  proof (intro allI impI)
    fix i j assume i: "i < length cs" and s: "started (cs ! i)" and j: "j < i"
    have "Suc i < length (c # cs)" using i by simp
    moreover have "started ((c # cs) ! Suc i)" using s by simp
    ultimately have "\<forall>j<Suc i. ended ((c # cs) ! j)" using Cons.prems(1) by blast
    moreover from j have "Suc j < Suc i" by simp
    ultimately have "ended ((c # cs) ! Suc j)" by blast
    then show "ended (cs ! j)" by simp
  qed
  from Cons.prems(2) have tl2: "\<forall>c\<in>set cs. ended c \<longrightarrow> performed c = op_effects (call_fn c)"
    by simp
  note IH = Cons.IH[OF tl tl2]
  show ?case
  proof (cases "ended c")
    case True
    with Cons.prems(2) have "performed c = op_effects (call_fn c)" by simp
    with IH show ?thesis by simp
  next
    case False
    have "performed d = []" if "d \<in> set cs" for d
    proof -
      from that obtain i where i: "i < length cs" "d = cs ! i" by (auto simp: in_set_conv_nth)
      have "\<not> started d"
      proof
        assume "started d"
        with i have "started ((c # cs) ! Suc i)" by simp
        moreover have "Suc i < length (c # cs)" using i by simp
        ultimately have "\<forall>j<Suc i. ended ((c # cs) ! j)" using Cons.prems(1) by blast
        then have "ended ((c # cs) ! 0)" by blast
        with False show False by simp
      qed
      then show ?thesis by (rule performed_not_started)
    qed
    then have silent: "concat (map performed cs) = []" by simp
    have "prefix (performed c) (op_effects (call_fn c))"
      by (cases "call_progress c") (simp_all add: performed_def take_is_prefix)
    then have "prefix (performed c)
        (op_effects (call_fn c) @ concat (map op_effects (map call_fn cs)))"
      by (rule prefix_prefix)
    then show ?thesis by (simp only: list.map concat.simps silent append_Nil2)
  qed
qed

lemma ended_performed: "ended c \<Longrightarrow> performed c = op_effects (call_fn c)"
  by (auto simp: ended_def performed_def)

lemma inv_first_unended_resumable:
  assumes inv: "mutex_inv m" and k: "k < length (lock_calls m)"
    and ne: "\<not> ended (lock_calls m ! k)" and pre: "\<forall>j<k. ended (lock_calls m ! j)"
  shows "\<exists>m'. resume k m = Some m'"
proof (cases "call_progress (lock_calls m ! k)")
  case Awaiting_prev
  from pre inv_resolved_prev[OF inv k] have "resolved m (call_prev (lock_calls m ! k))" by simp
  with Awaiting_prev k show ?thesis by (simp add: resume_def Let_def)
next
  case (In_fn rest)
  with k show ?thesis by (cases rest) (simp_all add: resume_def Let_def)
next
  case Returned
  with ne show ?thesis by (simp add: ended_def)
next
  case Thrown
  with ne show ?thesis by (simp add: ended_def)
qed

lemma inv_one_inside:
  assumes inv: "mutex_inv m" and i: "i < length (lock_calls m)" and j: "j < length (lock_calls m)"
    and ii: "call_progress (lock_calls m ! i) = In_fn ri"
    and jj: "call_progress (lock_calls m ! j) = In_fn rj"
  shows "i = j"
proof (rule ccontr)
  assume "i \<noteq> j"
  then consider "i < j" | "j < i" by linarith
  then show False
  proof cases
    case 1
    from inv j jj have "\<forall>l<j. ended (lock_calls m ! l)"
      by (simp add: mutex_inv_def started_def)
    with 1 have "ended (lock_calls m ! i)" by blast
    with ii show False by (simp add: ended_def)
  next
    case 2
    from inv i ii have "\<forall>l<i. ended (lock_calls m ! l)"
      by (simp add: mutex_inv_def started_def)
    with 2 have "ended (lock_calls m ! j)" by blast
    with jj show False by (simp add: ended_def)
  qed
qed

text \<open>
  C1. For every sequence of calls of \<open>runExclusive\<close> and resumptions, the calls are queued
  in the order they were made, and the shared log is at every moment an initial part of
  what running the operations one after the other in that order would log: no two
  operations interleave. A call is inside its operation (or has ended) only when every
  call made before it has ended, so all the effects of the earlier operations are in the
  log before the next one begins, and at most one call is inside its operation. A call
  that has ended, by return or by throw, has performed all its effects and resolved its
  \<open>release\<close> promise; the first call that has not ended can always be resumed, so a
  failed operation never wedges the lock.
\<close>

theorem lock_serialises:
  assumes "mutex_run evs SimpleMutex = Some m"
  shows "map call_fn (lock_calls m) = submitted evs
    \<and> prefix (lock_log m) (concat (map op_effects (submitted evs)))
    \<and> lock_log m = concat (map performed (lock_calls m))
    \<and> (\<forall>i<length (lock_calls m). started (lock_calls m ! i)
          \<longrightarrow> (\<forall>j<i. ended (lock_calls m ! j)))
    \<and> (\<forall>i<length (lock_calls m). \<forall>j<length (lock_calls m). \<forall>ri rj.
          call_progress (lock_calls m ! i) = In_fn ri \<and> call_progress (lock_calls m ! j) = In_fn rj
          \<longrightarrow> i = j)
    \<and> (\<forall>i<length (lock_calls m). ended (lock_calls m ! i)
          \<longrightarrow> performed (lock_calls m ! i) = op_effects (call_fn (lock_calls m ! i))
              \<and> resolved m (call_release (lock_calls m ! i)))
    \<and> (\<forall>k<length (lock_calls m).
          \<not> ended (lock_calls m ! k) \<and> (\<forall>j<k. ended (lock_calls m ! j))
          \<longrightarrow> (\<exists>m'. resume k m = Some m'))"
proof -
  have inv: "mutex_inv m" by (rule inv_run[OF assms inv_initial])
  have fns: "map call_fn (lock_calls m) = submitted evs"
    using run_fns[OF assms] by (simp add: SimpleMutex_def)
  from inv have lg: "lock_log m = concat (map performed (lock_calls m))"
    and ord: "\<forall>i<length (lock_calls m). started (lock_calls m ! i)
          \<longrightarrow> (\<forall>j<i. ended (lock_calls m ! j))"
    by (simp_all add: mutex_inv_def)
  have "prefix (concat (map performed (lock_calls m)))
          (concat (map op_effects (map call_fn (lock_calls m))))"
    by (rule serial_prefix[OF ord]) (simp add: ended_performed)
  with lg fns have pf: "prefix (lock_log m) (concat (map op_effects (submitted evs)))" by simp
  have one: "\<forall>i<length (lock_calls m). \<forall>j<length (lock_calls m). \<forall>ri rj.
          call_progress (lock_calls m ! i) = In_fn ri \<and> call_progress (lock_calls m ! j) = In_fn rj
          \<longrightarrow> i = j"
    using inv_one_inside[OF inv] by blast
  have rel: "\<forall>i<length (lock_calls m). ended (lock_calls m ! i)
          \<longrightarrow> performed (lock_calls m ! i) = op_effects (call_fn (lock_calls m ! i))
              \<and> resolved m (call_release (lock_calls m ! i))"
    using inv by (simp add: mutex_inv_def resolved_def ended_performed)
  have live: "\<forall>k<length (lock_calls m).
          \<not> ended (lock_calls m ! k) \<and> (\<forall>j<k. ended (lock_calls m ! j))
          \<longrightarrow> (\<exists>m'. resume k m = Some m')"
    using inv_first_unended_resumable[OF inv] by blast
  from fns pf lg ord one rel live show ?thesis by blast
qed

theorem lock_serialises_witness:
  "mutex_run [Call op_a, Call op_b, Resume 0, Resume 0, Resume 0, Resume 0,
              Resume 1, Resume 1, Resume 1, Resume 1] SimpleMutex
     = Some \<lparr>lock_p = 2, lock_promises = [True, True, True],
             lock_calls = [\<lparr>call_prev = 0, call_release = 1, call_fn = op_a, call_progress = Thrown\<rparr>,
                           \<lparr>call_prev = 1, call_release = 2, call_fn = op_b, call_progress = Returned\<rparr>],
             lock_log = [''a-before'', ''a-after'', ''b-before'', ''b-after'']\<rparr>
   \<and> submitted [Call op_a, Call op_b, Resume 0, Resume 0, Resume 0, Resume 0,
              Resume 1, Resume 1, Resume 1, Resume 1] = [op_a, op_b]
   \<and> prefix [''a-before'', ''a-after'', ''b-before'', ''b-after'']
        (concat (map op_effects [op_a, op_b]))
   \<and> mutex_run [Call op_a, Call op_b, Resume 0, Resume 0] SimpleMutex
     = Some \<lparr>lock_p = 2, lock_promises = [True, False, False],
             lock_calls = [\<lparr>call_prev = 0, call_release = 1, call_fn = op_a,
                             call_progress = In_fn [''a-after'']\<rparr>,
                           \<lparr>call_prev = 1, call_release = 2, call_fn = op_b,
                             call_progress = Awaiting_prev\<rparr>],
             lock_log = [''a-before'']\<rparr>
   \<and> mutex_run [Call op_a, Call op_b, Resume 0, Resume 0, Resume 1] SimpleMutex = None
   \<and> mutex_run [Call op_a, Call op_b, Resume 1] SimpleMutex = None"
proof -
  let ?evs = "[Call op_a, Call op_b, Resume 0, Resume 0, Resume 0, Resume 0,
              Resume 1, Resume 1, Resume 1, Resume 1]"
  let ?m = "\<lparr>lock_p = 2, lock_promises = [True, True, True],
             lock_calls = [\<lparr>call_prev = 0, call_release = 1, call_fn = op_a, call_progress = Thrown\<rparr>,
                           \<lparr>call_prev = 1, call_release = 2, call_fn = op_b, call_progress = Returned\<rparr>],
             lock_log = [''a-before'', ''a-after'', ''b-before'', ''b-after'']\<rparr>"
  note ev = SimpleMutex_def runExclusive_def resume_def resolved_def Let_def op_a_def op_b_def
  have r: "mutex_run ?evs SimpleMutex = Some ?m" by (simp add: ev)
  have s: "submitted ?evs = [op_a, op_b]" by simp
  from lock_serialises[OF r]
  have "prefix (lock_log ?m) (concat (map op_effects (submitted ?evs)))"
    by (rule conjunct1[OF conjunct2])
  then have p: "prefix [''a-before'', ''a-after'', ''b-before'', ''b-after'']
        (concat (map op_effects [op_a, op_b]))" by simp
  have mid: "mutex_run [Call op_a, Call op_b, Resume 0, Resume 0] SimpleMutex
     = Some \<lparr>lock_p = 2, lock_promises = [True, False, False],
             lock_calls = [\<lparr>call_prev = 0, call_release = 1, call_fn = op_a,
                             call_progress = In_fn [''a-after'']\<rparr>,
                           \<lparr>call_prev = 1, call_release = 2, call_fn = op_b,
                             call_progress = Awaiting_prev\<rparr>],
             lock_log = [''a-before'']\<rparr>"
    by (simp add: ev)
  have n1: "mutex_run [Call op_a, Call op_b, Resume 0, Resume 0, Resume 1] SimpleMutex = None"
    by (simp add: ev)
  have n2: "mutex_run [Call op_a, Call op_b, Resume 1] SimpleMutex = None"
    by (simp add: ev)
  from r s p mid n1 n2 show ?thesis by simp
qed


end
